theory Spec2Isabelle
  imports Complex_Main "HOL-Library.Word"
begin

section \<open>Machine types and what the C++ leaves to its libraries\<close>

text \<open>
  The program (\<^verbatim>\<open>src/main.cpp\<close>) works on \<^verbatim>\<open>uint32_t\<close> hash values and
  \<^verbatim>\<open>size_t\<close> feature indices; both are words, so that arithmetic wraps as it does
  in C++. Container sizes and loop counters (\<^verbatim>\<open>ngrams\<close>, \<^verbatim>\<open>num_hashes\<close>,
  \<^verbatim>\<open>vector::size()\<close>) are natural numbers.
\<close>

type_synonym uint32_t = "32 word"
type_synonym size_t = "64 word"

text \<open>
  Undefined behaviour of the C++ is a value of the model: the integer modulus by zero in
  \<^verbatim>\<open>h % num_features_\<close> and a read past the end of a vector.
\<close>

datatype error = DivisionByZero | OutOfRange

text \<open>
  A \<^verbatim>\<open>double\<close>: not-a-number, the two infinities, or a finite value. Finite values are
  carried as reals; every arithmetic operation rounds its exact result with the rounding
  function of the platform (see \<open>round_double\<close> below). Signed zeros are not
  distinguished: the program never divides by a negative zero.
\<close>

datatype double = NaN | MInf | Fin real | PInf

text \<open>\<^verbatim>\<open>x < y\<close> on doubles: false as soon as one side is NaN.\<close>

fun dlt :: "double \<Rightarrow> double \<Rightarrow> bool" where
  "dlt (Fin x) (Fin y) = (x < y)"
| "dlt (Fin x) PInf = True"
| "dlt MInf (Fin y) = True"
| "dlt MInf PInf = True"
| "dlt x y = False"

text \<open>\<^verbatim>\<open>x / y\<close> on doubles (IEEE 754): \<open>0/0\<close> and \<open>inf/inf\<close> are NaN.\<close>

fun ddiv :: "(real \<Rightarrow> real) \<Rightarrow> double \<Rightarrow> double \<Rightarrow> double" where
  "ddiv rnd (Fin x) (Fin y) =
     (if y = 0 then (if x = 0 then NaN else if 0 < x then PInf else MInf)
      else Fin (rnd (x / y)))"
| "ddiv rnd (Fin x) PInf = Fin 0"
| "ddiv rnd (Fin x) MInf = Fin 0"
| "ddiv rnd PInf (Fin y) = (if 0 \<le> y then PInf else MInf)"
| "ddiv rnd MInf (Fin y) = (if 0 \<le> y then MInf else PInf)"
| "ddiv rnd x y = NaN"

text \<open>\<^verbatim>\<open>x - y\<close> on doubles.\<close>

fun dsub :: "(real \<Rightarrow> real) \<Rightarrow> double \<Rightarrow> double \<Rightarrow> double" where
  "dsub rnd (Fin x) (Fin y) = Fin (rnd (x - y))"
| "dsub rnd (Fin x) PInf = MInf"
| "dsub rnd (Fin x) MInf = PInf"
| "dsub rnd PInf (Fin y) = PInf"
| "dsub rnd PInf MInf = PInf"
| "dsub rnd MInf (Fin y) = MInf"
| "dsub rnd MInf PInf = MInf"
| "dsub rnd x y = NaN"

text \<open>The conversion \<^verbatim>\<open>static_cast<double>(n)\<close> of a \<^verbatim>\<open>size_t\<close>.\<close>

definition double_of_size :: "(real \<Rightarrow> real) \<Rightarrow> nat \<Rightarrow> double" where
  "double_of_size rnd n = Fin (rnd (real n))"

text \<open>
  What every rounding mode of IEEE 754 guarantees and the proofs below use: 0 and 1 are
  representable, and rounding is monotone.
\<close>

definition rounding :: "(real \<Rightarrow> real) \<Rightarrow> bool" where
  "rounding rnd \<longleftrightarrow> rnd 0 = 0 \<and> rnd 1 = 1 \<and> (\<forall>x y. x \<le> y \<longrightarrow> rnd x \<le> rnd y)"

text \<open>
  The library code the program calls and the repository does not contain is a parameter of
  the model:
  \<^item> \<open>MurmurHash3_x86_32 key seed\<close>: the 32-bit hash declared in
    \<^verbatim>\<open>include/MurmurHash3.h\<close>, of the bytes \<open>key\<close>. The header is a file of the
    repository that is not among the sources; no theorem below depends on what the hash
    computes, only on its being a function of the bytes and the seed;
  \<^item> \<open>mt19937 seed\<close>: the state of a freshly seeded \<^verbatim>\<open>std::mt19937\<close>;
  \<^item> \<open>uniform_int_distribution lo hi g\<close>: one draw of
    \<^verbatim>\<open>std::uniform_int_distribution<uint32_t>(lo, hi)\<close> from the generator \<open>g\<close>, with the
    generator's next state;
  \<^item> \<open>unordered_insert x xs\<close>: \<^verbatim>\<open>std::unordered_set::insert\<close>, on a set given by the
    list of its elements in iteration order (an insertion may rehash, so the order after it
    is the library's choice);
  \<^item> \<open>round_double\<close>: rounding of an exact result to a \<^verbatim>\<open>double\<close>.
\<close>

record 'g platform =
  MurmurHash3_x86_32 :: "string \<Rightarrow> uint32_t \<Rightarrow> uint32_t"
  mt19937 :: "uint32_t \<Rightarrow> 'g"
  uniform_int_distribution :: "uint32_t \<Rightarrow> uint32_t \<Rightarrow> 'g \<Rightarrow> uint32_t \<times> 'g"
  unordered_insert :: "size_t \<Rightarrow> size_t list \<Rightarrow> size_t list"
  round_double :: "real \<Rightarrow> real"

text \<open>The contracts of the C++ standard for these: a draw lies in the closed range of its
  distribution, and an insertion adds its element to the set and nothing else.\<close>

definition distribution_ok :: "'g platform \<Rightarrow> bool" where
  "distribution_ok P \<longleftrightarrow>
     (\<forall>lo hi g. lo \<le> hi \<longrightarrow>
        lo \<le> fst (uniform_int_distribution P lo hi g) \<and>
        fst (uniform_int_distribution P lo hi g) \<le> hi)"

definition unordered_set_ok :: "'g platform \<Rightarrow> bool" where
  "unordered_set_ok P \<longleftrightarrow>
     (\<forall>x xs. set (unordered_insert P x xs) = insert x (set xs))"

text \<open>
  A platform on which the model can be run: a multiplicative string hash, a linear
  congruential generator whose draw is its state when that lies in the range (the lower
  bound otherwise), a set kept as a list without repetitions, and exact arithmetic. It
  stands in for the libraries where a theorem is instantiated at concrete inputs; the
  theorems themselves hold for every platform that meets the contracts.
\<close>

definition sample_platform :: "uint32_t platform" where
  "sample_platform =
     \<lparr>MurmurHash3_x86_32 = (\<lambda>key seed. fold (\<lambda>c h. h * 31 + of_char c) key seed),
      mt19937 = (\<lambda>seed. seed),
      uniform_int_distribution =
        (\<lambda>lo hi g. (if lo \<le> g \<and> g \<le> hi then g else lo, g * 1664525 + 1013904223)),
      unordered_insert = (\<lambda>x xs. if x \<in> set xs then xs else x # xs),
      round_double = (\<lambda>x. x)\<rparr>"

section \<open>TokenGen\<close>

text \<open>The members \<^verbatim>\<open>sv_\<close> and \<^verbatim>\<open>del_\<close> (a name cannot end in an underscore here).\<close>

record TokenGen =
  tg_sv :: string
  tg_del :: string

text \<open>\<^verbatim>\<open>operator bool\<close>: the tokenizer reports itself non-exhausted.\<close>

definition TokenGen_bool :: "TokenGen \<Rightarrow> bool" where
  "TokenGen_bool g = (tg_sv g \<noteq> [])"

text \<open>\<^verbatim>\<open>string_view::find_first_of\<close>: the first position holding a byte of \<open>del\<close>;
  \<open>None\<close> is \<^verbatim>\<open>npos\<close>.\<close>

fun find_first_of :: "string \<Rightarrow> string \<Rightarrow> nat option" where
  "find_first_of [] del = None"
| "find_first_of (c # cs) del =
     (if c \<in> set del then Some 0 else map_option Suc (find_first_of cs del))"

lemma find_first_of_less: "find_first_of sv del = Some it \<Longrightarrow> it < length sv"
  by (induction sv arbitrary: it) (auto split: if_splits)

text \<open>\<^verbatim>\<open>operator()\<close>: the token returned and the tokenizer after the call.\<close>

function TokenGen_call :: "TokenGen \<Rightarrow> string \<times> TokenGen" where
  "TokenGen_call g =
     (case find_first_of (tg_sv g) (tg_del g) of
        None \<Rightarrow>
          (if tg_sv g \<noteq> [] then (tg_sv g, g\<lparr>tg_sv := []\<rparr>) else ([], g\<lparr>tg_sv := []\<rparr>))
      | Some it \<Rightarrow>
          (if take it (tg_sv g) \<noteq> [] then (take it (tg_sv g), g\<lparr>tg_sv := drop (it + 1) (tg_sv g)\<rparr>)
           else if drop (it + 1) (tg_sv g) = [] then ([], g\<lparr>tg_sv := drop (it + 1) (tg_sv g)\<rparr>)
           else TokenGen_call (g\<lparr>tg_sv := drop (it + 1) (tg_sv g)\<rparr>)))"
  by pat_completeness auto
termination
  by (relation "measure (\<lambda>g. length (tg_sv g))") (auto dest: find_first_of_less)

declare TokenGen_call.simps [simp del]

lemma TokenGen_call_shorter:
  "tg_sv g \<noteq> [] \<Longrightarrow> length (tg_sv (snd (TokenGen_call g))) < length (tg_sv g)"
proof (induction g rule: TokenGen_call.induct)
  case (1 g)
  show ?case
  proof (cases "find_first_of (tg_sv g) (tg_del g)")
    case None
    with "1.prems" show ?thesis
      by (simp add: TokenGen_call.simps [of g])
  next
    case (Some it)
    then have lt: "it < length (tg_sv g)"
      by (rule find_first_of_less)
    show ?thesis
    proof (cases "take it (tg_sv g) = [] \<and> drop (it + 1) (tg_sv g) \<noteq> []")
      case True
      with "1.IH" [OF Some] have "length (tg_sv (snd (TokenGen_call (g\<lparr>tg_sv := drop (it + 1) (tg_sv g)\<rparr>))))
          < length (drop (it + 1) (tg_sv g))"
        by simp
      with True Some lt show ?thesis
        by (simp add: TokenGen_call.simps [of g])
    next
      case False
      with Some lt show ?thesis
        by (auto simp: TokenGen_call.simps [of g])
    qed
  qed
qed

section \<open>MinHasher\<close>

definition kHashPrime :: uint32_t where
  "kHashPrime = 2038074743"

text \<open>The members \<^verbatim>\<open>num_hashes_\<close>, \<^verbatim>\<open>a_\<close> and \<^verbatim>\<open>b_\<close>.\<close>

record MinHasher =
  mh_num_hashes :: nat
  mh_a :: "uint32_t list"
  mh_b :: "uint32_t list"

text \<open>
  The constructor's loop \<^verbatim>\<open>for (i = 0; i < num_hashes_; ++i)\<close>: it draws \<^verbatim>\<open>a_[i]\<close>, then
  \<^verbatim>\<open>b_[i]\<close>, from the same generator, whose state is threaded through.
\<close>

function MinHasher_loop ::
  "'g platform \<Rightarrow> nat \<Rightarrow> nat \<Rightarrow> 'g \<Rightarrow> uint32_t list \<Rightarrow> uint32_t list \<Rightarrow> uint32_t list \<times> uint32_t list"
where
  "MinHasher_loop P n i rng a b =
     (if i < n then
        (case uniform_int_distribution P 1 (kHashPrime - 1) rng of (x, rng1) \<Rightarrow>
           (case uniform_int_distribution P 0 (kHashPrime - 1) rng1 of (y, rng2) \<Rightarrow>
              MinHasher_loop P n (i + 1) rng2 (a[i := x]) (b[i := y])))
      else (a, b))"
  by pat_completeness auto
termination
  by (relation "measure (\<lambda>(P, n, i, rng, a, b). n - i)") auto

declare MinHasher_loop.simps [simp del]

text \<open>\<^verbatim>\<open>MinHasher(num_hashes, seed)\<close>: both vectors are resized to \<open>num_hashes\<close> zeros, then
  filled by the loop.\<close>

definition MinHasher_new :: "'g platform \<Rightarrow> nat \<Rightarrow> uint32_t \<Rightarrow> MinHasher" where
  "MinHasher_new P num_hashes seed =
     (case MinHasher_loop P num_hashes 0 (mt19937 P seed)
             (replicate num_hashes 0) (replicate num_hashes 0) of
        (a, b) \<Rightarrow> \<lparr>mh_num_hashes = num_hashes, mh_a = a, mh_b = b\<rparr>)"

text \<open>The range of a coefficient pair: \<open>a\<close> in \<open>[1, P - 1]\<close>, \<open>b\<close> in \<open>[0, P - 1]\<close>.\<close>

definition coeff_ok :: "uint32_t \<Rightarrow> uint32_t \<Rightarrow> bool" where
  "coeff_ok x y \<longleftrightarrow> 1 \<le> x \<and> x \<le> kHashPrime - 1 \<and> y \<le> kHashPrime - 1"

text \<open>
  The hash of one feature index under the \<open>i\<close>-th function:
  \<^verbatim>\<open>static_cast<uint32_t>(((1ULL + idx) * a_[i] + b_[i]) % kHashPrime)\<close>. The sum is
  computed in 64 bits (and wraps there), the remainder is cut to 32 bits.
\<close>

definition hash_of :: "MinHasher \<Rightarrow> size_t \<Rightarrow> nat \<Rightarrow> uint32_t" where
  "hash_of h idx i =
     ucast ((((1 + idx) * ucast (mh_a h ! i) + ucast (mh_b h ! i)) mod ucast kHashPrime) :: size_t)"

text \<open>The inner loop of \<^verbatim>\<open>compute_signature\<close>: every slot takes the minimum of itself and
  the hash of \<open>idx\<close>.\<close>

definition signature_step :: "MinHasher \<Rightarrow> size_t \<Rightarrow> uint32_t list \<Rightarrow> uint32_t list" where
  "signature_step h idx sig =
     fold (\<lambda>i sig. sig[i := min (sig ! i) (hash_of h idx i)]) [0..<mh_num_hashes h] sig"

text \<open>\<^verbatim>\<open>compute_signature\<close>, over the feature indices in the order in which the
  \<^verbatim>\<open>unordered_set\<close> is iterated.\<close>

definition compute_signature :: "MinHasher \<Rightarrow> size_t list \<Rightarrow> uint32_t list" where
  "compute_signature h feature_indices =
     fold (signature_step h) feature_indices (replicate (mh_num_hashes h) kHashPrime)"

text \<open>
  \<^verbatim>\<open>jaccard_distance\<close>: the loop runs over the positions of \<open>a\<close> and reads \<open>b\<close> at each;
  where \<open>b\<close> is shorter the read is past its end. The quotient is a division of doubles.
\<close>

definition count_matches :: "uint32_t list \<Rightarrow> uint32_t list \<Rightarrow> nat" where
  "count_matches a b = fold (\<lambda>i m. if a ! i = b ! i then m + 1 else m) [0..<length a] 0"

text \<open>The value returned: \<^verbatim>\<open>1.0 - static_cast<double>(match) / a.size()\<close>.\<close>

definition jaccard_value :: "(real \<Rightarrow> real) \<Rightarrow> uint32_t list \<Rightarrow> uint32_t list \<Rightarrow> double" where
  "jaccard_value rnd a b =
     dsub rnd (Fin 1)
       (ddiv rnd (double_of_size rnd (count_matches a b)) (double_of_size rnd (length a)))"

definition jaccard_distance ::
  "(real \<Rightarrow> real) \<Rightarrow> uint32_t list \<Rightarrow> uint32_t list \<Rightarrow> error + double"
where
  "jaccard_distance rnd a b =
     (if length b < length a then Inl OutOfRange else Inr (jaccard_value rnd a b))"

section \<open>Deduplicator\<close>

text \<open>\<^verbatim>\<open>isalnum\<close> of the C library in the "C" locale (the program never sets another):
  the digits and the letters of ASCII.\<close>

definition isalnum :: "char \<Rightarrow> bool" where
  "isalnum c =
     (let n = (of_char c :: nat)
      in (48 \<le> n \<and> n \<le> 57) \<or> (65 \<le> n \<and> n \<le> 90) \<or> (97 \<le> n \<and> n \<le> 122))"

text \<open>The members \<^verbatim>\<open>ngrams_\<close>, \<^verbatim>\<open>num_features_\<close>, \<^verbatim>\<open>threshold_\<close>, \<^verbatim>\<open>nonalnum_\<close>
  and \<^verbatim>\<open>hasher_\<close>.\<close>

record Deduplicator =
  dd_ngrams :: nat
  dd_num_features :: size_t
  dd_threshold :: double
  dd_nonalnum :: string
  dd_hasher :: MinHasher

text \<open>
  The constructor: it stores its arguments, builds the hasher with the default seed 1,
  and collects the bytes 0 to 255 that are not alphanumeric. It checks nothing.
\<close>

definition Deduplicator_new ::
  "'g platform \<Rightarrow> nat \<Rightarrow> nat \<Rightarrow> double \<Rightarrow> size_t \<Rightarrow> Deduplicator"
where
  "Deduplicator_new P ngrams num_hashes threshold num_features =
     \<lparr>dd_ngrams = ngrams,
      dd_num_features = num_features,
      dd_threshold = threshold,
      dd_nonalnum = filter (\<lambda>c. \<not> isalnum c) (map char_of [0..<256::nat]),
      dd_hasher = MinHasher_new P num_hashes 1\<rparr>"

text \<open>
  The loop of \<^verbatim>\<open>extract_features\<close>, on the tokenizer, the window and the set of indices.
  The window is joined with \<^verbatim>\<open>_\<close> after every token and hashed with seed 0;
  \<^verbatim>\<open>h % num_features_\<close> is taken in \<^verbatim>\<open>size_t\<close> and is undefined when
  \<^verbatim>\<open>num_features_\<close> is 0.
\<close>

function extract_loop ::
  "'g platform \<Rightarrow> nat \<Rightarrow> size_t \<Rightarrow> TokenGen \<Rightarrow> string list \<Rightarrow> size_t list \<Rightarrow> error + size_t list"
where
  "extract_loop P ngrams num_features splitter window indices =
     (if \<not> TokenGen_bool splitter then Inr indices
      else
        (let token = fst (TokenGen_call splitter);
             splitter' = snd (TokenGen_call splitter);
             window1 = window @ [token];
             window2 = (if length window1 > ngrams then tl window1 else window1)
         in if length window2 = ngrams then
              (let combined = concat (map (\<lambda>w. w @ ''_'') window2);
                   h = MurmurHash3_x86_32 P combined 0
               in if num_features = 0 then Inl DivisionByZero
                  else extract_loop P ngrams num_features splitter' window2
                         (unordered_insert P (ucast h mod num_features) indices))
            else extract_loop P ngrams num_features splitter' window2 indices))"
  by pat_completeness auto
termination
  by (relation "measure (\<lambda>(P, ngrams, num_features, splitter, window, indices). length (tg_sv splitter))")
     (auto simp: TokenGen_bool_def TokenGen_call_shorter)

declare extract_loop.simps [simp del]

definition extract_features :: "'g platform \<Rightarrow> Deduplicator \<Rightarrow> string \<Rightarrow> error + size_t list" where
  "extract_features P d text =
     extract_loop P (dd_ngrams d) (dd_num_features d) \<lparr>tg_sv = text, tg_del = dd_nonalnum d\<rparr> [] []"

text \<open>What \<^verbatim>\<open>process\<close> prints for a pair: the similarity and the two documents, named here
  by their positions \<open>i\<close> and \<open>j\<close> in the corpus.\<close>

record DuplicatePairReport =
  jaccard :: double
  first_doc :: nat
  second_doc :: nat

text \<open>The first loop of \<^verbatim>\<open>process\<close>: one signature per document, appended in order.\<close>

fun signatures_loop ::
  "'g platform \<Rightarrow> Deduplicator \<Rightarrow> string list \<Rightarrow> uint32_t list list \<Rightarrow> error + uint32_t list list"
where
  "signatures_loop P d [] signatures = Inr signatures"
| "signatures_loop P d (doc # docs) signatures =
     (case extract_features P d doc of
        Inl e \<Rightarrow> Inl e
      | Inr ngrams \<Rightarrow>
          signatures_loop P d docs (signatures @ [compute_signature (dd_hasher d) ngrams]))"

text \<open>The loop over \<open>j\<close>, from \<open>i + 1\<close> to the number of documents \<open>n\<close>.\<close>

function pairs_inner ::
  "'g platform \<Rightarrow> Deduplicator \<Rightarrow> nat \<Rightarrow> uint32_t list list \<Rightarrow> nat \<Rightarrow> nat \<Rightarrow>
   DuplicatePairReport list \<Rightarrow> error + DuplicatePairReport list"
where
  "pairs_inner P d n signatures i j out =
     (if j < n then
        (case jaccard_distance (round_double P) (signatures ! i) (signatures ! j) of
           Inl e \<Rightarrow> Inl e
         | Inr dst \<Rightarrow>
             pairs_inner P d n signatures i (j + 1)
               (if dlt dst (dd_threshold d)
                then out @ [\<lparr>jaccard = dsub (round_double P) (Fin 1) dst,
                             first_doc = i, second_doc = j\<rparr>]
                else out))
      else Inr out)"
  by pat_completeness auto
termination
  by (relation "measure (\<lambda>(P, d, n, signatures, i, j, out). n - j)") auto

declare pairs_inner.simps [simp del]

text \<open>The loop over \<open>i\<close>.\<close>

function pairs_outer ::
  "'g platform \<Rightarrow> Deduplicator \<Rightarrow> nat \<Rightarrow> uint32_t list list \<Rightarrow> nat \<Rightarrow>
   DuplicatePairReport list \<Rightarrow> error + DuplicatePairReport list"
where
  "pairs_outer P d n signatures i out =
     (if i < n then
        (case pairs_inner P d n signatures i (i + 1) out of
           Inl e \<Rightarrow> Inl e
         | Inr out' \<Rightarrow> pairs_outer P d n signatures (i + 1) out')
      else Inr out)"
  by pat_completeness auto
termination
  by (relation "measure (\<lambda>(P, d, n, signatures, i, out). n - i)") auto

declare pairs_outer.simps [simp del]

text \<open>\<^verbatim>\<open>process\<close>: the reports in the order in which they are printed.\<close>

definition process :: "'g platform \<Rightarrow> Deduplicator \<Rightarrow> string list \<Rightarrow> error + DuplicatePairReport list" where
  "process P d docs =
     (case signatures_loop P d docs [] of
        Inl e \<Rightarrow> Inl e
      | Inr signatures \<Rightarrow> pairs_outer P d (length docs) signatures 0 [])"

section \<open>Notions in which the claims are stated\<close>

text \<open>
  The tokens that the loop \<^verbatim>\<open>while (splitter) { token = splitter(); ... }\<close> of
  \<^verbatim>\<open>extract_features\<close> receives, in order.
\<close>

function tokens_yielded :: "TokenGen \<Rightarrow> string list" where
  "tokens_yielded g =
     (if \<not> TokenGen_bool g then []
      else fst (TokenGen_call g) # tokens_yielded (snd (TokenGen_call g)))"
  by pat_completeness auto
termination
  by (relation "measure (\<lambda>g. length (tg_sv g))")
     (auto simp: TokenGen_bool_def TokenGen_call_shorter)

declare tokens_yielded.simps [simp del]

text \<open>The body of that loop, run over a list of tokens.\<close>

fun extract_tokens ::
  "'g platform \<Rightarrow> nat \<Rightarrow> size_t \<Rightarrow> string list \<Rightarrow> string list \<Rightarrow> size_t list \<Rightarrow> error + size_t list"
where
  "extract_tokens P ngrams num_features [] window indices = Inr indices"
| "extract_tokens P ngrams num_features (token # rest) window indices =
     (let window1 = window @ [token];
          window2 = (if length window1 > ngrams then tl window1 else window1)
      in if length window2 = ngrams then
           (if num_features = 0 then Inl DivisionByZero
            else extract_tokens P ngrams num_features rest window2
                   (unordered_insert P
                      (ucast (MurmurHash3_x86_32 P (concat (map (\<lambda>w. w @ ''_'') window2)) 0)
                         mod num_features) indices))
         else extract_tokens P ngrams num_features rest window2 indices)"

text \<open>
  The tokens of a text as the specification defines them, not taken from the code: the
  text is cut at every delimiter, and a token is a piece that is not empty, that is, a
  maximal run of alphanumeric bytes.
\<close>

fun split_on :: "(char \<Rightarrow> bool) \<Rightarrow> string \<Rightarrow> string list" where
  "split_on d [] = [[]]"
| "split_on d (c # cs) =
     (if d c then [] # split_on d cs
      else (c # hd (split_on d cs)) # tl (split_on d cs))"

definition tokens :: "string \<Rightarrow> string list" where
  "tokens text = filter (\<lambda>t. t \<noteq> []) (split_on (\<lambda>c. \<not> isalnum c) text)"

text \<open>
  A text on which the tokenizer returns an empty token (see \<open>yields_empty_token\<close>): it
  ends in a delimiter, and no alphanumeric byte stands before that delimiter.
\<close>

definition ends_in_bare_delimiter :: "(char \<Rightarrow> bool) \<Rightarrow> string \<Rightarrow> bool" where
  "ends_in_bare_delimiter d text \<longleftrightarrow>
     text \<noteq> [] \<and> d (last text) \<and> (butlast text = [] \<or> d (last (butlast text)))"

text \<open>The report printed for the pair \<open>(i, j)\<close>, and the test that decides whether it is printed.\<close>

definition report :: "'g platform \<Rightarrow> uint32_t list list \<Rightarrow> nat \<Rightarrow> nat \<Rightarrow> DuplicatePairReport" where
  "report P signatures i j =
     \<lparr>jaccard = dsub (round_double P) (Fin 1)
                  (jaccard_value (round_double P) (signatures ! i) (signatures ! j)),
      first_doc = i, second_doc = j\<rparr>"

definition close_pair :: "'g platform \<Rightarrow> Deduplicator \<Rightarrow> uint32_t list list \<Rightarrow> nat \<Rightarrow> nat \<Rightarrow> bool" where
  "close_pair P d signatures i j \<longleftrightarrow>
     dlt (jaccard_value (round_double P) (signatures ! i) (signatures ! j)) (dd_threshold d)"

section \<open>The platform that runs the model meets the contracts\<close>

lemma rounding_sample: "rounding (round_double sample_platform)"
  by (simp add: rounding_def sample_platform_def)

lemma distribution_ok_sample: "distribution_ok sample_platform"
  by (simp add: distribution_ok_def sample_platform_def)

lemma unordered_set_ok_sample: "unordered_set_ok sample_platform"
  by (auto simp: unordered_set_ok_def sample_platform_def)

section \<open>The hash family\<close>

lemma MinHasher_loop_length:
  "MinHasher_loop P n i rng a b = (a', b') \<Longrightarrow> length a' = length a \<and> length b' = length b"
proof (induction P n i rng a b rule: MinHasher_loop.induct)
  case (1 P n i rng a b)
  show ?case
  proof (cases "i < n")
    case True
    obtain x rng1 where d1: "uniform_int_distribution P 1 (kHashPrime - 1) rng = (x, rng1)"
      by (cases "uniform_int_distribution P 1 (kHashPrime - 1) rng")
    obtain y rng2 where d2: "uniform_int_distribution P 0 (kHashPrime - 1) rng1 = (y, rng2)"
      by (cases "uniform_int_distribution P 0 (kHashPrime - 1) rng1")
    from "1.prems" True d1 d2
    have "MinHasher_loop P n (i + 1) rng2 (a[i := x]) (b[i := y]) = (a', b')"
      by (simp add: MinHasher_loop.simps [of P n i])
    from "1.IH" [OF True d1 [symmetric] d2 [symmetric] this]
    show ?thesis by simp
  next
    case False
    with "1.prems" show ?thesis
      by (simp add: MinHasher_loop.simps [of P n i])
  qed
qed

lemma MinHasher_new_fields:
  "mh_num_hashes (MinHasher_new P n seed) = n"
  "length (mh_a (MinHasher_new P n seed)) = n"
  "length (mh_b (MinHasher_new P n seed)) = n"
proof -
  obtain a b where l: "MinHasher_loop P n 0 (mt19937 P seed) (replicate n 0) (replicate n 0) = (a, b)"
    by (cases "MinHasher_loop P n 0 (mt19937 P seed) (replicate n 0) (replicate n 0)")
  from MinHasher_loop_length [OF l] l
  show "mh_num_hashes (MinHasher_new P n seed) = n"
    "length (mh_a (MinHasher_new P n seed)) = n"
    "length (mh_b (MinHasher_new P n seed)) = n"
    by (simp_all add: MinHasher_new_def)
qed


lemma MinHasher_loop_bounds:
  assumes "distribution_ok P"
    and "MinHasher_loop P n i rng a b = (a', b')"
    and "length a = n" "length b = n"
    and "\<And>k. k < i \<Longrightarrow> coeff_ok (a ! k) (b ! k)"
    and "k < n"
  shows "coeff_ok (a' ! k) (b' ! k)"
  using assms
proof (induction P n i rng a b rule: MinHasher_loop.induct)
  case (1 P n i rng a b)
  show ?case
  proof (cases "i < n")
    case True
    obtain x rng1 where d1: "uniform_int_distribution P 1 (kHashPrime - 1) rng = (x, rng1)"
      by (cases "uniform_int_distribution P 1 (kHashPrime - 1) rng")
    obtain y rng2 where d2: "uniform_int_distribution P 0 (kHashPrime - 1) rng1 = (y, rng2)"
      by (cases "uniform_int_distribution P 0 (kHashPrime - 1) rng1")
    have le1: "(1::uint32_t) \<le> kHashPrime - 1" and le0: "(0::uint32_t) \<le> kHashPrime - 1"
      by (simp_all add: kHashPrime_def)
    from "1.prems"(1) [unfolded distribution_ok_def, rule_format, OF le1, of rng] d1
    have x: "1 \<le> x \<and> x \<le> kHashPrime - 1"
      by simp
    from "1.prems"(1) [unfolded distribution_ok_def, rule_format, OF le0, of rng1] d2
    have y: "y \<le> kHashPrime - 1"
      by simp
    from "1.prems" True d1 d2
    have run: "MinHasher_loop P n (i + 1) rng2 (a[i := x]) (b[i := y]) = (a', b')"
      by (simp add: MinHasher_loop.simps [of P n i])
    have inv: "coeff_ok (a[i := x] ! j) (b[i := y] ! j)" if "j < i + 1" for j
    proof (cases "j = i")
      case True
      with \<open>i < n\<close> "1.prems" x y show ?thesis by (simp add: coeff_ok_def)
    next
      case False
      with that have "j < i" by simp
      with "1.prems"(5) False show ?thesis by simp
    qed
    from "1.IH" [OF True d1 [symmetric] d2 [symmetric] "1.prems"(1) run _ _ inv \<open>k < n\<close>] "1.prems"(3,4)
    show ?thesis by simp
  next
    case False
    with "1.prems" show ?thesis
      by (simp add: MinHasher_loop.simps [of P n i])
  qed
qed

section \<open>Signatures\<close>

lemma fold_update_length:
  "length (fold (\<lambda>i s. s[i := g i s]) xs sig) = length sig"
  by (induction xs arbitrary: sig) auto

lemma fold_update_nth:
  "k \<le> length sig \<Longrightarrow> j < length sig \<Longrightarrow>
   fold (\<lambda>i s. s[i := f i (s ! i)]) [0..<k] sig ! j = (if j < k then f j (sig ! j) else sig ! j)"
proof (induction k)
  case 0
  then show ?case by simp
next
  case (Suc k)
  then show ?case
    by (auto simp: fold_update_length nth_list_update)
qed

lemma signature_step_length: "length (signature_step h idx sig) = length sig"
  unfolding signature_step_def by (rule fold_update_length)

lemma signature_step_nth:
  "length sig = mh_num_hashes h \<Longrightarrow> i < mh_num_hashes h \<Longrightarrow>
   signature_step h idx sig ! i = min (sig ! i) (hash_of h idx i)"
  unfolding signature_step_def
  using fold_update_nth [of "mh_num_hashes h" sig i "\<lambda>i v. min v (hash_of h idx i)"]
  by simp

lemma fold_signature_step:
  "length sig = mh_num_hashes h \<Longrightarrow>
   length (fold (signature_step h) fs sig) = mh_num_hashes h \<and>
   (\<forall>i < mh_num_hashes h.
      fold (signature_step h) fs sig ! i = fold (\<lambda>idx m. min m (hash_of h idx i)) fs (sig ! i))"
proof (induction fs arbitrary: sig)
  case Nil
  then show ?case by simp
next
  case (Cons idx fs)
  from Cons.prems have "length (signature_step h idx sig) = mh_num_hashes h"
    by (simp add: signature_step_length)
  from Cons.IH [OF this] Cons.prems show ?case
    by (simp add: signature_step_nth)
qed

lemma fold_min_Min:
  "fold (\<lambda>x m. min m (g x)) xs (m0 :: 'a :: linorder) = Min (insert m0 (g ` set xs))"
proof (induction xs arbitrary: m0)
  case Nil
  then show ?case by simp
next
  case (Cons x xs)
  have "Min (insert (min m0 (g x)) (g ` set xs)) = Min (insert m0 (insert (g x) (g ` set xs)))"
    by (cases "xs = []") (simp_all add: min.assoc)
  with Cons show ?case by simp
qed

lemma compute_signature_length: "length (compute_signature h fs) = mh_num_hashes h"
  using fold_signature_step [of "replicate (mh_num_hashes h) kHashPrime" h fs]
  by (simp add: compute_signature_def)

lemma compute_signature_nth:
  "i < mh_num_hashes h \<Longrightarrow>
   compute_signature h fs ! i = Min (insert kHashPrime ((\<lambda>idx. hash_of h idx i) ` set fs))"
  using fold_signature_step [of "replicate (mh_num_hashes h) kHashPrime" h fs]
  by (simp add: compute_signature_def fold_min_Min)

lemma unat_ucast_up: "unat (ucast (w :: uint32_t) :: size_t) = unat w"
proof -
  have "unat w < 2 ^ 32" using unsigned_less [of w] by simp
  then have "unat w < 2 ^ 64" by simp
  then show ?thesis by (simp add: unsigned_ucast_eq take_bit_nat_eq_self)
qed

lemma unat_hash_of:
  "unat (hash_of h idx i) =
     ((1 + unat idx) * unat (mh_a h ! i) + unat (mh_b h ! i)) mod 2 ^ 64 mod 2038074743"
proof -
  let ?w = "(1 + idx) * ucast (mh_a h ! i) + ucast (mh_b h ! i) :: size_t"
  have w: "unat ?w = ((1 + unat idx) * unat (mh_a h ! i) + unat (mh_b h ! i)) mod 2 ^ 64"
    by (simp add: unat_word_ariths unat_ucast_up mod_simps)
  have p: "unat (ucast kHashPrime :: size_t) = 2038074743"
    by (simp add: kHashPrime_def unat_ucast_up)
  have m: "unat (?w mod ucast kHashPrime) = unat ?w mod 2038074743"
    by (simp add: unat_mod p)
  have "unat ?w mod 2038074743 < 2038074743"
    by simp
  then have "unat (?w mod ucast kHashPrime) < 2 ^ 32"
    unfolding m by simp
  then have "unat (ucast (?w mod ucast kHashPrime) :: uint32_t) = unat (?w mod ucast kHashPrime)"
    by (simp add: unsigned_ucast_eq take_bit_nat_eq_self)
  with m w show ?thesis
    by (simp add: hash_of_def)
qed

lemma hash_of_less: "hash_of h idx i < kHashPrime"
  by (simp add: word_less_nat_alt unat_hash_of kHashPrime_def)

section \<open>Distances\<close>

lemma fold_count:
  "fold (\<lambda>i m. if p i then m + 1 else m) xs (m0::nat) = m0 + length (filter p xs)"
  by (induction xs arbitrary: m0) auto

lemma count_matches_eq:
  "count_matches a b = length (filter (\<lambda>i. a ! i = b ! i) [0..<length a])"
  by (simp add: count_matches_def fold_count)

lemma count_matches_le: "count_matches a b \<le> length a"
  using length_filter_le [of "\<lambda>i. a ! i = b ! i" "[0..<length a]"]
  by (simp add: count_matches_eq)

lemma count_matches_self: "count_matches a a = length a"
  by (simp add: count_matches_eq)

lemma rounding_pos: "rounding rnd \<Longrightarrow> 0 < n \<Longrightarrow> 1 \<le> rnd (real n)"
proof -
  assume r: "rounding rnd" and n: "0 < n"
  then have "rnd 1 \<le> rnd (real n)"
    unfolding rounding_def by (metis of_nat_0_less_iff of_nat_1 of_nat_le_iff Suc_leI One_nat_def)
  with r show ?thesis by (simp add: rounding_def)
qed

lemma jaccard_self:
  assumes "rounding rnd" "a \<noteq> []"
  shows "jaccard_distance rnd a a = Inr (Fin 0)"
proof -
  from assms have "1 \<le> rnd (real (length a))"
    by (simp add: rounding_pos)
  with assms(1) show ?thesis
    by (simp add: jaccard_distance_def jaccard_value_def count_matches_self double_of_size_def rounding_def)
qed

lemma jaccard_range:
  assumes r: "rounding rnd" and ne: "a \<noteq> []" and len: "length a \<le> length b"
  shows "\<exists>x. jaccard_distance rnd a b = Inr (Fin x) \<and> 0 \<le> x \<and> x \<le> 1"
proof -
  let ?m = "rnd (real (count_matches a b))" and ?n = "rnd (real (length a))"
  from r ne have n1: "1 \<le> ?n" by (simp add: rounding_pos)
  from r have mono: "\<And>x y. x \<le> y \<Longrightarrow> rnd x \<le> rnd y" and r0: "rnd 0 = 0" and r1: "rnd 1 = 1"
    by (auto simp: rounding_def)
  have m0: "0 \<le> ?m" using mono [of 0 "real (count_matches a b)"] r0 by simp
  have mn: "?m \<le> ?n" using mono count_matches_le [of a b] by simp
  have q0: "0 \<le> ?m / ?n" using m0 n1 by simp
  have q1: "?m / ?n \<le> 1" using mn n1 by simp
  have rq0: "0 \<le> rnd (?m / ?n)" using mono [OF q0] r0 by simp
  have rq1: "rnd (?m / ?n) \<le> 1" using mono [OF q1] r1 by simp
  have "0 \<le> rnd (1 - rnd (?m / ?n))" using mono [of 0 "1 - rnd (?m / ?n)"] rq1 r0 by simp
  moreover have "rnd (1 - rnd (?m / ?n)) \<le> 1" using mono [of "1 - rnd (?m / ?n)" 1] rq0 r1 by simp
  ultimately show ?thesis
    using n1 len by (simp add: jaccard_distance_def jaccard_value_def double_of_size_def)
qed

lemma jaccard_empty: "rounding rnd \<Longrightarrow> jaccard_distance rnd [] b = Inr NaN"
  by (simp add: jaccard_distance_def jaccard_value_def double_of_size_def count_matches_def rounding_def)

section \<open>The signature as a minimum\<close>

lemma no_overflow:
  assumes "f < (2::nat) ^ 32" "a < 2 ^ 32" "b < 2 ^ 32"
  shows "(1 + f) * a + b < 2 ^ 64"
proof -
  have "(1 + f) * a \<le> 2 ^ 32 * (2 ^ 32 - 1)"
    using assms by (intro mult_le_mono) simp_all
  with assms(3) show ?thesis by simp
qed

lemma unat_hash_of_small:
  assumes "unat idx < 2 ^ 32"
  shows "unat (hash_of h idx i) =
     ((1 + unat idx) * unat (mh_a h ! i) + unat (mh_b h ! i)) mod 2038074743"
proof -
  have "unat (mh_a h ! i) < 2 ^ 32" "unat (mh_b h ! i) < 2 ^ 32"
    using unsigned_less [of "mh_a h ! i"] unsigned_less [of "mh_b h ! i"] by simp_all
  from no_overflow [OF assms this]
  show ?thesis by (simp add: unat_hash_of)
qed

lemma mono_unat: "mono (unat :: 'a::len word \<Rightarrow> nat)"
  by (simp add: mono_def word_le_nat_alt)

lemma compute_signature_unat:
  assumes "i < mh_num_hashes h" and "\<forall>f \<in> set S. unat f < 2 ^ 32"
  shows "unat (compute_signature h S ! i) =
       (if set S = {} then 2038074743
        else Min ((\<lambda>f. ((1 + unat f) * unat (mh_a h ! i) + unat (mh_b h ! i)) mod 2038074743) ` set S))"
proof (cases "set S = {}")
  case True
  with assms(1) show ?thesis
    by (simp add: compute_signature_nth kHashPrime_def)
next
  case False
  let ?H = "(\<lambda>idx. hash_of h idx i) ` set S"
  have fin: "finite ?H" and ne: "?H \<noteq> {}"
    using False by simp_all
  have "Min ?H \<in> ?H"
    using fin ne by (rule Min_in)
  then have "Min ?H < kHashPrime"
    by (auto simp: hash_of_less)
  then have "min kHashPrime (Min ?H) = Min ?H"
    by (intro min_absorb2 less_imp_le)
  moreover have "Min (insert kHashPrime ?H) = min kHashPrime (Min ?H)"
    using fin ne by (rule Min_insert)
  ultimately have "Min (insert kHashPrime ?H) = Min ?H"
    by simp
  with assms(1) have "unat (compute_signature h S ! i) = unat (Min ?H)"
    by (simp add: compute_signature_nth)
  also have "\<dots> = Min (unat ` ?H)"
    using mono_unat fin ne by (rule mono_Min_commute)
  also have "unat ` ?H = (\<lambda>f. ((1 + unat f) * unat (mh_a h ! i) + unat (mh_b h ! i)) mod 2038074743) ` set S"
    using assms(2) by (auto simp: image_image unat_hash_of_small intro!: image_cong)
  finally show ?thesis
    using False by simp
qed

lemma MinHasher_new_coeff_ok:
  assumes "distribution_ok P" and "i < num_hashes"
  shows "coeff_ok (mh_a (MinHasher_new P num_hashes seed) ! i) (mh_b (MinHasher_new P num_hashes seed) ! i)"
proof -
  obtain a b where l: "MinHasher_loop P num_hashes 0 (mt19937 P seed)
      (replicate num_hashes 0) (replicate num_hashes 0) = (a, b)"
    by (cases "MinHasher_loop P num_hashes 0 (mt19937 P seed) (replicate num_hashes 0) (replicate num_hashes 0)")
  from MinHasher_loop_bounds [OF assms(1) l _ _ _ assms(2)]
  have "coeff_ok (a ! i) (b ! i)" by simp
  with l show ?thesis by (simp add: MinHasher_new_def)
qed

lemma coeff_ok_unat:
  "coeff_ok x y \<longleftrightarrow> 1 \<le> unat x \<and> unat x \<le> 2038074742 \<and> unat y \<le> 2038074742"
  by (simp add: coeff_ok_def kHashPrime_def word_le_nat_alt)

section \<open>The tokenizer and the tokens of the specification\<close>

lemma extract_loop_tokens:
  "extract_loop P ngrams num_features g window indices =
   extract_tokens P ngrams num_features (tokens_yielded g) window indices"
proof (induction P ngrams num_features g window indices rule: extract_loop.induct)
  case (1 P ngrams num_features splitter window indices)
  show ?case
  proof (cases "TokenGen_bool splitter")
    case False
    then show ?thesis
      by (simp add: extract_loop.simps [of _ _ _ splitter] tokens_yielded.simps [of splitter])
  next
    case True
    then show ?thesis
      using "1.IH"
      by (simp add: extract_loop.simps [of _ _ _ splitter] tokens_yielded.simps [of splitter] Let_def)
  qed
qed

lemma split_on_ne: "split_on d sv \<noteq> []"
  by (induction sv) auto

lemma split_on_None:
  "find_first_of sv del = None \<Longrightarrow> split_on (\<lambda>c. c \<in> set del) sv = [sv]"
  by (induction sv) (auto split: if_splits)

lemma split_on_Some:
  "find_first_of sv del = Some it \<Longrightarrow>
   split_on (\<lambda>c. c \<in> set del) sv = take it sv # split_on (\<lambda>c. c \<in> set del) (drop (it + 1) sv)"
proof (induction sv arbitrary: it)
  case Nil
  then show ?case by simp
next
  case (Cons c cs)
  show ?case
  proof (cases "c \<in> set del")
    case True
    with Cons.prems show ?thesis by simp
  next
    case False
    with Cons.prems obtain it' where it': "find_first_of cs del = Some it'" "it = Suc it'"
      by auto
    from Cons.IH [OF it'(1)] False it'(2) show ?thesis by simp
  qed
qed

lemma TokenGen_call_split:
  "filter (\<lambda>t. t \<noteq> []) [fst (TokenGen_call g)] @
   filter (\<lambda>t. t \<noteq> []) (split_on (\<lambda>c. c \<in> set (tg_del g)) (tg_sv (snd (TokenGen_call g)))) =
   filter (\<lambda>t. t \<noteq> []) (split_on (\<lambda>c. c \<in> set (tg_del g)) (tg_sv g))"
proof (induction g rule: TokenGen_call.induct)
  case (1 g)
  show ?case
  proof (cases "find_first_of (tg_sv g) (tg_del g)")
    case None
    then show ?thesis
      by (simp add: TokenGen_call.simps [of g] split_on_None)
  next
    case (Some it)
    show ?thesis
    proof (cases "take it (tg_sv g) = [] \<and> drop (it + 1) (tg_sv g) \<noteq> []")
      case True
      with "1.IH" [OF Some] Some show ?thesis
        by (simp add: TokenGen_call.simps [of g] split_on_Some)
    next
      case False
      with Some show ?thesis
        by (auto simp: TokenGen_call.simps [of g] split_on_Some)
    qed
  qed
qed

lemma TokenGen_call_del: "tg_del (snd (TokenGen_call g)) = tg_del g"
proof (induction g rule: TokenGen_call.induct)
  case (1 g)
  show ?case
  proof (cases "find_first_of (tg_sv g) (tg_del g)")
    case None
    then show ?thesis
      by (simp add: TokenGen_call.simps [of g])
  next
    case (Some it)
    show ?thesis
    proof (cases "take it (tg_sv g) = [] \<and> drop (it + 1) (tg_sv g) \<noteq> []")
      case True
      with "1.IH" [OF Some] Some show ?thesis
        by (simp add: TokenGen_call.simps [of g])
    next
      case False
      with Some show ?thesis
        by (auto simp: TokenGen_call.simps [of g])
    qed
  qed
qed

lemma tokens_yielded_split:
  "filter (\<lambda>t. t \<noteq> []) (tokens_yielded g) =
   filter (\<lambda>t. t \<noteq> []) (split_on (\<lambda>c. c \<in> set (tg_del g)) (tg_sv g))"
proof (induction g rule: tokens_yielded.induct)
  case (1 g)
  show ?case
  proof (cases "TokenGen_bool g")
    case False
    then show ?thesis
      by (simp add: tokens_yielded.simps [of g] TokenGen_bool_def)
  next
    case True
    from "1.IH" True TokenGen_call_split [of g] show ?thesis
      by (auto simp: tokens_yielded.simps [of g] TokenGen_call_del split: if_splits)
  qed
qed

lemma Deduplicator_new_fields [simp]:
  "dd_ngrams (Deduplicator_new P ngrams num_hashes threshold num_features) = ngrams"
  "dd_num_features (Deduplicator_new P ngrams num_hashes threshold num_features) = num_features"
  "dd_threshold (Deduplicator_new P ngrams num_hashes threshold num_features) = threshold"
  "dd_hasher (Deduplicator_new P ngrams num_hashes threshold num_features) = MinHasher_new P num_hashes 1"
  by (simp_all add: Deduplicator_new_def)

lemma all_bytes: "c \<in> set (map char_of [0..<256::nat])"
proof -
  have "c \<in> (UNIV :: char set)" by simp
  then have "c \<in> char_of ` {0..<256::nat}"
    by (simp only: UNIV_char_of_nat)
  then show ?thesis by simp
qed

lemma nonalnum_mem [simp]:
  "c \<in> set (dd_nonalnum (Deduplicator_new P ngrams num_hashes threshold num_features)) \<longleftrightarrow> \<not> isalnum c"
  using all_bytes [of c] by (simp add: Deduplicator_new_def del: set_map set_upt)

lemma tokens_yielded_tokens:
  "filter (\<lambda>t. t \<noteq> [])
     (tokens_yielded \<lparr>tg_sv = text,
        tg_del = dd_nonalnum (Deduplicator_new P ngrams num_hashes threshold num_features)\<rparr>)
   = tokens text"
  by (simp add: tokens_yielded_split tokens_def)

lemma extract_features_tokens:
  "extract_features P d text =
   extract_tokens P (dd_ngrams d) (dd_num_features d)
     (tokens_yielded \<lparr>tg_sv = text, tg_del = dd_nonalnum d\<rparr>) [] []"
  by (simp add: extract_features_def extract_loop_tokens)

lemma extract_tokens_short:
  "length window + length ts < ngrams \<Longrightarrow>
   extract_tokens P ngrams num_features ts window indices = Inr indices"
  by (induction ts arbitrary: window) (auto simp: Let_def)

lemma extract_tokens_defined:
  "num_features \<noteq> 0 \<Longrightarrow> \<exists>fs. extract_tokens P ngrams num_features ts window indices = Inr fs"
  by (induction ts arbitrary: window indices) (auto simp: Let_def)

lemma extract_tokens_zero:
  "length window \<le> ngrams \<Longrightarrow>
   extract_tokens P ngrams 0 ts window indices =
     (if ts \<noteq> [] \<and> ngrams \<le> length window + length ts then Inl DivisionByZero else Inr indices)"
proof (induction ts arbitrary: window)
  case Nil
  then show ?case by simp
next
  case (Cons t ts)
  show ?case
  proof (cases "Suc (length window) < ngrams")
    case True
    then have "length (window @ [t]) \<le> ngrams" by simp
    from Cons.IH [OF this] True show ?thesis
      by (auto simp: Let_def)
  next
    case False
    with Cons.prems show ?thesis
      by (auto simp: Let_def)
  qed
qed

lemma find_first_of_Some:
  "find_first_of sv del = Some it \<Longrightarrow>
   it < length sv \<and> sv ! it \<in> set del \<and> (\<forall>c \<in> set (take it sv). c \<notin> set del)"
proof (induction sv arbitrary: it)
  case Nil
  then show ?case by simp
next
  case (Cons c cs)
  show ?case
  proof (cases "c \<in> set del")
    case True
    with Cons.prems show ?thesis by simp
  next
    case False
    with Cons.prems obtain it' where it': "find_first_of cs del = Some it'" "it = Suc it'"
      by auto
    from Cons.IH [OF it'(1)] False it'(2) show ?thesis by simp
  qed
qed

lemma find_first_of_None:
  "find_first_of sv del = None \<Longrightarrow> \<forall>c \<in> set sv. c \<notin> set del"
  by (induction sv) (auto split: if_splits)

lemma bare_after_delimiter:
  "d c \<Longrightarrow> rest \<noteq> [] \<Longrightarrow>
   ends_in_bare_delimiter d (xs @ c # rest) = ends_in_bare_delimiter d rest"
  by (cases "butlast rest = []") (simp_all add: ends_in_bare_delimiter_def butlast_append)

lemma bare_after_token:
  "xs \<noteq> [] \<Longrightarrow> \<not> d (last xs) \<Longrightarrow> \<not> ends_in_bare_delimiter d (xs @ [c])"
  by (simp add: ends_in_bare_delimiter_def)

lemma bare_no_delimiter:
  "\<forall>c \<in> set sv. \<not> d c \<Longrightarrow> \<not> ends_in_bare_delimiter d sv"
  by (auto simp: ends_in_bare_delimiter_def)

lemma TokenGen_call_bare:
  "tg_sv g \<noteq> [] \<Longrightarrow>
   (fst (TokenGen_call g) = [] \<or>
    ends_in_bare_delimiter (\<lambda>c. c \<in> set (tg_del g)) (tg_sv (snd (TokenGen_call g)))) =
   ends_in_bare_delimiter (\<lambda>c. c \<in> set (tg_del g)) (tg_sv g)"
proof (induction g rule: TokenGen_call.induct)
  case (1 g)
  let ?d = "\<lambda>c. c \<in> set (tg_del g)"
  show ?case
  proof (cases "find_first_of (tg_sv g) (tg_del g)")
    case None
    from find_first_of_None [OF None] have "\<not> ends_in_bare_delimiter ?d (tg_sv g)"
      by (intro bare_no_delimiter) simp
    with None "1.prems" show ?thesis
      by (simp add: TokenGen_call.simps [of g] ends_in_bare_delimiter_def)
  next
    case (Some it)
    note f = find_first_of_Some [OF Some]
    let ?r = "take it (tg_sv g)" and ?rest = "drop (it + 1) (tg_sv g)"
    have sv: "tg_sv g = ?r @ (tg_sv g ! it) # ?rest"
      using f by (simp add: id_take_nth_drop)
    show ?thesis
    proof (cases "?r = []")
      case False
      then have call: "TokenGen_call g = (?r, g\<lparr>tg_sv := ?rest\<rparr>)"
        using Some by (simp add: TokenGen_call.simps [of g])
      from f False have nd: "\<not> ?d (last ?r)"
        using last_in_set [of ?r] by blast
      have "ends_in_bare_delimiter ?d (tg_sv g) = ends_in_bare_delimiter ?d ?rest"
      proof (cases "?rest = []")
        case True
        with sv have "tg_sv g = ?r @ [tg_sv g ! it]" by simp
        with bare_after_token [of ?r ?d "tg_sv g ! it", OF False nd] True show ?thesis
          by (simp add: ends_in_bare_delimiter_def)
      next
        case rest: False
        from bare_after_delimiter [of ?d "tg_sv g ! it" ?rest ?r] f rest sv show ?thesis
          by simp
      qed
      with call False show ?thesis by simp
    next
      case True
      show ?thesis
      proof (cases "?rest = []")
        case rest: True
        with True Some have call: "TokenGen_call g = ([], g\<lparr>tg_sv := ?rest\<rparr>)"
          by (simp add: TokenGen_call.simps [of g])
        from sv True rest have "tg_sv g = [tg_sv g ! it]" by simp
        then have "ends_in_bare_delimiter ?d (tg_sv g)"
          using f by (metis butlast.simps(2) ends_in_bare_delimiter_def last.simps list.distinct(1))
        with call show ?thesis by simp
      next
        case rest: False
        with True Some have call: "TokenGen_call g = TokenGen_call (g\<lparr>tg_sv := ?rest\<rparr>)"
          by (simp add: TokenGen_call.simps [of g])
        from "1.IH" [OF Some] True rest
        have "(fst (TokenGen_call (g\<lparr>tg_sv := ?rest\<rparr>)) = [] \<or>
            ends_in_bare_delimiter ?d (tg_sv (snd (TokenGen_call (g\<lparr>tg_sv := ?rest\<rparr>))))) =
            ends_in_bare_delimiter ?d ?rest"
          by simp
        moreover from bare_after_delimiter [of ?d "tg_sv g ! it" ?rest ?r] f rest sv
        have "ends_in_bare_delimiter ?d (tg_sv g) = ends_in_bare_delimiter ?d ?rest"
          by simp
        ultimately show ?thesis
          using call by simp
      qed
    qed
  qed
qed

lemma tokens_yielded_empty_iff:
  "[] \<in> set (tokens_yielded g) \<longleftrightarrow>
   ends_in_bare_delimiter (\<lambda>c. c \<in> set (tg_del g)) (tg_sv g)"
proof (induction g rule: tokens_yielded.induct)
  case (1 g)
  show ?case
  proof (cases "TokenGen_bool g")
    case False
    then show ?thesis
      by (simp add: tokens_yielded.simps [of g] TokenGen_bool_def ends_in_bare_delimiter_def)
  next
    case True
    then have ne: "tg_sv g \<noteq> []"
      by (simp add: TokenGen_bool_def)
    from "1.IH" [OF ] True TokenGen_call_bare [OF ne] show ?thesis
      by (auto simp: tokens_yielded.simps [of g] TokenGen_call_del)
  qed
qed

lemma yields_empty_token:
  "[] \<in> set (tokens_yielded \<lparr>tg_sv = text,
      tg_del = dd_nonalnum (Deduplicator_new P ngrams num_hashes threshold num_features)\<rparr>) \<longleftrightarrow>
   ends_in_bare_delimiter (\<lambda>c. \<not> isalnum c) text"
  by (simp add: tokens_yielded_empty_iff)

lemma TokenGen_call_empty_last:
  "tg_sv g \<noteq> [] \<Longrightarrow> fst (TokenGen_call g) = [] \<Longrightarrow> tg_sv (snd (TokenGen_call g)) = []"
proof (induction g rule: TokenGen_call.induct)
  case (1 g)
  show ?case
  proof (cases "find_first_of (tg_sv g) (tg_del g)")
    case None
    then show ?thesis
      by (simp add: TokenGen_call.simps [of g])
  next
    case (Some it)
    show ?thesis
    proof (cases "take it (tg_sv g) = [] \<and> drop (it + 1) (tg_sv g) \<noteq> []")
      case True
      with "1.IH" [OF Some] "1.prems" Some show ?thesis
        by (simp add: TokenGen_call.simps [of g])
    next
      case False
      with "1.prems" Some show ?thesis
        by (auto simp: TokenGen_call.simps [of g])
    qed
  qed
qed

lemma tokens_yielded_shape:
  "tokens_yielded g =
     filter (\<lambda>t. t \<noteq> []) (tokens_yielded g) @ (if [] \<in> set (tokens_yielded g) then [[]] else [])"
proof (induction g rule: tokens_yielded.induct)
  case (1 g)
  show ?case
  proof (cases "TokenGen_bool g")
    case False
    then show ?thesis
      by (simp add: tokens_yielded.simps [of g])
  next
    case True
    then have ne: "tg_sv g \<noteq> []"
      by (simp add: TokenGen_bool_def)
    show ?thesis
    proof (cases "fst (TokenGen_call g) = []")
      case empty: True
      with TokenGen_call_empty_last [OF ne] have "tokens_yielded (snd (TokenGen_call g)) = []"
        by (simp add: tokens_yielded.simps [of "snd (TokenGen_call g)"] TokenGen_bool_def)
      with True empty show ?thesis
        by (simp add: tokens_yielded.simps [of g])
    next
      case False
      with "1.IH" [OF ] True show ?thesis
        by (simp add: tokens_yielded.simps [of g])
    qed
  qed
qed

lemma tokens_yielded_eq:
  "tokens_yielded \<lparr>tg_sv = text,
      tg_del = dd_nonalnum (Deduplicator_new P ngrams num_hashes threshold num_features)\<rparr>
   = tokens text @ (if ends_in_bare_delimiter (\<lambda>c. \<not> isalnum c) text then [[]] else [])"
  using tokens_yielded_shape [of "\<lparr>tg_sv = text,
      tg_del = dd_nonalnum (Deduplicator_new P ngrams num_hashes threshold num_features)\<rparr>"]
  by (simp only: tokens_yielded_tokens yields_empty_token)

lemma unat_feature_index:
  "unat ((ucast (h :: uint32_t) :: size_t) mod num_features) < 2 ^ 32"
proof -
  have "unat ((ucast h :: size_t) mod num_features) \<le> unat (ucast h :: size_t)"
    by (simp add: unat_mod)
  also have "\<dots> < 2 ^ 32"
    using unsigned_less [of h] by (simp add: unat_ucast_up)
  finally show ?thesis .
qed

lemma extract_tokens_bound:
  assumes "unordered_set_ok P" and "\<forall>f \<in> set indices. unat f < 2 ^ 32 \<and> f < num_features"
    and "extract_tokens P ngrams num_features ts window indices = Inr fs"
  shows "\<forall>f \<in> set fs. unat f < 2 ^ 32 \<and> f < num_features"
  using assms(2,3)
proof (induction ts arbitrary: window indices)
  case Nil
  then show ?case by simp
next
  case (Cons t ts)
  let ?w1 = "window @ [t]"
  let ?w2 = "if length ?w1 > ngrams then tl ?w1 else ?w1"
  show ?case
  proof (cases "length ?w2 = ngrams")
    case False
    with Cons.prems(2) have "extract_tokens P ngrams num_features ts ?w2 indices = Inr fs"
      by (simp add: Let_def)
    from Cons.IH [OF Cons.prems(1) this] show ?thesis .
  next
    case True
    let ?x = "ucast (MurmurHash3_x86_32 P (concat (map (\<lambda>w. w @ ''_'') ?w2)) 0) mod num_features"
    from True Cons.prems(2) have nz: "num_features \<noteq> 0"
      by (auto simp: Let_def split: if_splits)
    with True Cons.prems(2)
    have run: "extract_tokens P ngrams num_features ts ?w2 (unordered_insert P ?x indices) = Inr fs"
      by (simp add: Let_def)
    have "?x < num_features"
      using nz by (simp add: word_mod_less_divisor word_neq_0_conv)
    then have "\<forall>f \<in> set (unordered_insert P ?x indices). unat f < 2 ^ 32 \<and> f < num_features"
      using assms(1) Cons.prems(1) unat_feature_index
      by (auto simp: unordered_set_ok_def)
    from Cons.IH [OF this run] show ?thesis .
  qed
qed

lemma extract_features_bound:
  assumes "unordered_set_ok P" and "extract_features P d text = Inr fs"
  shows "\<forall>f \<in> set fs. unat f < 2 ^ 32 \<and> f < dd_num_features d"
  using extract_tokens_bound [OF assms(1) _ assms(2) [unfolded extract_features_tokens]]
  by simp

section \<open>The two loops of process\<close>

lemma signatures_loop_Inr:
  "signatures_loop P d docs acc = Inr sigs \<Longrightarrow>
   length sigs = length acc + length docs \<and>
   (\<forall>k < length acc. sigs ! k = acc ! k) \<and>
   (\<forall>k < length docs. \<exists>fs. extract_features P d (docs ! k) = Inr fs \<and>
        sigs ! (length acc + k) = compute_signature (dd_hasher d) fs)"
proof (induction docs arbitrary: acc)
  case Nil
  then show ?case by simp
next
  case (Cons doc docs)
  from Cons.prems obtain fs where fs: "extract_features P d doc = Inr fs"
    and run: "signatures_loop P d docs (acc @ [compute_signature (dd_hasher d) fs]) = Inr sigs"
    by (auto split: sum.splits)
  from Cons.IH [OF run]
  have len: "length sigs = length acc + 1 + length docs"
    and old: "\<forall>k < length acc + 1. sigs ! k = (acc @ [compute_signature (dd_hasher d) fs]) ! k"
    and new: "\<forall>k < length docs. \<exists>fs'. extract_features P d (docs ! k) = Inr fs' \<and>
        sigs ! (length acc + 1 + k) = compute_signature (dd_hasher d) fs'"
    by simp_all
  have "\<exists>fs'. extract_features P d ((doc # docs) ! k) = Inr fs' \<and>
        sigs ! (length acc + k) = compute_signature (dd_hasher d) fs'" if "k < length (doc # docs)" for k
  proof (cases k)
    case 0
    with old [rule_format, of "length acc"] fs show ?thesis by simp
  next
    case (Suc k')
    with that new [rule_format, of k'] show ?thesis by simp
  qed
  moreover have "\<forall>k < length acc. sigs ! k = acc ! k"
    using old by (auto simp: nth_append)
  ultimately show ?case using len by simp
qed

lemma signatures_loop_defined:
  "(\<And>doc. doc \<in> set docs \<Longrightarrow> \<exists>fs. extract_features P d doc = Inr fs) \<Longrightarrow>
   \<exists>sigs. signatures_loop P d docs acc = Inr sigs"
proof (induction docs arbitrary: acc)
  case Nil
  then show ?case by simp
next
  case (Cons doc docs)
  from Cons.prems [of doc] obtain fs where "extract_features P d doc = Inr fs" by auto
  moreover from Cons.IH [of "acc @ [compute_signature (dd_hasher d) fs]"] Cons.prems
  obtain sigs where "signatures_loop P d docs (acc @ [compute_signature (dd_hasher d) fs]) = Inr sigs"
    by auto
  ultimately show ?case by simp
qed

lemma signatures_loop_lengths:
  assumes "signatures_loop P d docs [] = Inr sigs" and "k < length docs"
  shows "length (sigs ! k) = mh_num_hashes (dd_hasher d)"
  using signatures_loop_Inr [OF assms(1)] assms(2)
  by (auto simp: compute_signature_length)

lemma jaccard_distance_same_length:
  "length a = length b \<Longrightarrow> jaccard_distance rnd a b = Inr (jaccard_value rnd a b)"
  by (simp add: jaccard_distance_def)

lemma pairs_inner_eq:
  assumes "\<And>k. k < n \<Longrightarrow> length (signatures ! k) = m" and "i < n"
  shows "pairs_inner P d n signatures i j out =
         Inr (out @ [report P signatures i j'. j' \<leftarrow> [j..<n], close_pair P d signatures i j'])"
  using assms
proof (induction P d n signatures i j out rule: pairs_inner.induct)
  case (1 P d n signatures i j out)
  show ?case
  proof (cases "j < n")
    case False
    then show ?thesis
      by (simp add: pairs_inner.simps [of P d n signatures i j])
  next
    case True
    with "1.prems" have "length (signatures ! i) = length (signatures ! j)"
      by simp
    then have jd: "jaccard_distance (round_double P) (signatures ! i) (signatures ! j) =
        Inr (jaccard_value (round_double P) (signatures ! i) (signatures ! j))"
      by (rule jaccard_distance_same_length)
    from "1.IH" [OF True jd "1.prems"] True jd show ?thesis
      by (simp add: pairs_inner.simps [of P d n signatures i j] upt_conv_Cons
          report_def close_pair_def)
  qed
qed

lemma pairs_outer_eq:
  assumes "\<And>k. k < n \<Longrightarrow> length (signatures ! k) = m"
  shows "pairs_outer P d n signatures i out =
         Inr (out @ [report P signatures i' j. i' \<leftarrow> [i..<n], j \<leftarrow> [Suc i'..<n],
                       close_pair P d signatures i' j])"
  using assms
proof (induction P d n signatures i out rule: pairs_outer.induct)
  case (1 P d n signatures i out)
  show ?case
  proof (cases "i < n")
    case False
    then show ?thesis
      by (simp add: pairs_outer.simps [of P d n signatures i])
  next
    case True
    have inner: "pairs_inner P d n signatures i (i + 1) out =
        Inr (out @ [report P signatures i j'. j' \<leftarrow> [i + 1..<n], close_pair P d signatures i j'])"
      using "1.prems" True by (rule pairs_inner_eq)
    from "1.IH" [OF True inner "1.prems"] True inner show ?thesis
      by (simp add: pairs_outer.simps [of P d n signatures i] upt_conv_Cons)
  qed
qed

lemma process_eq:
  assumes "signatures_loop P d docs [] = Inr sigs"
  shows "process P d docs =
         Inr [report P sigs i j. i \<leftarrow> [0..<length docs], j \<leftarrow> [Suc i..<length docs],
                close_pair P d sigs i j]"
  using assms pairs_outer_eq [of "length docs" sigs "mh_num_hashes (dd_hasher d)" P d 0 "[]"]
    signatures_loop_lengths [OF assms]
  by (simp add: process_def)

lemma signatures_loop_nth:
  assumes "signatures_loop P d docs [] = Inr sigs" and "k < length docs"
  shows "\<exists>fs. extract_features P d (docs ! k) = Inr fs \<and>
              sigs ! k = compute_signature (dd_hasher d) fs"
  using signatures_loop_Inr [OF assms(1)] assms(2) by simp

lemma signatures_loop_total:
  assumes "dd_num_features d \<noteq> 0"
  shows "\<exists>sigs. signatures_loop P d docs [] = Inr sigs"
proof (rule signatures_loop_defined)
  fix doc
  from extract_tokens_defined [OF assms]
  show "\<exists>fs. extract_features P d doc = Inr fs"
    by (simp add: extract_features_tokens)
qed

lemma dlt_irrefl: "\<not> dlt x x"
  by (cases x) simp_all

lemma process_reports_only:
  assumes "signatures_loop P d docs [] = Inr sigs" and "process P d docs = Inr out" and "r \<in> set out"
  shows "first_doc r < second_doc r \<and> second_doc r < length docs \<and>
         close_pair P d sigs (first_doc r) (second_doc r) \<and>
         r = report P sigs (first_doc r) (second_doc r)"
  using assms(2,3) unfolding process_eq [OF assms(1)]
  by (auto simp: report_def)

section \<open>The order of iteration does not matter\<close>

lemma extract_tokens_order:
  assumes "unordered_set_ok P" and "unordered_set_ok P'"
    and "MurmurHash3_x86_32 P' = MurmurHash3_x86_32 P"
    and "set indices' = set indices"
  shows "rel_sum (=) (\<lambda>xs ys. set xs = set ys)
           (extract_tokens P' ngrams num_features ts window indices')
           (extract_tokens P ngrams num_features ts window indices)"
  using assms(4)
proof (induction ts arbitrary: window indices indices')
  case Nil
  then show ?case by simp
next
  case (Cons t ts)
  have ins: "set (unordered_insert P' x indices') = set (unordered_insert P x indices)" for x
    using assms(1,2) Cons.prems by (simp add: unordered_set_ok_def)
  show ?case
    using Cons.IH [OF ins] Cons.IH [OF Cons.prems] assms(3)
    by (simp add: Let_def)
qed

lemma compute_signature_set:
  assumes "set fs = set fs'"
  shows "compute_signature h fs = compute_signature h fs'"
proof (rule nth_equalityI)
  show "length (compute_signature h fs) = length (compute_signature h fs')"
    by (simp add: compute_signature_length)
  fix i
  assume "i < length (compute_signature h fs)"
  then have "i < mh_num_hashes h"
    by (simp add: compute_signature_length)
  with assms show "compute_signature h fs ! i = compute_signature h fs' ! i"
    by (simp add: compute_signature_nth)
qed

lemma extract_features_order:
  assumes "unordered_set_ok P" and "unordered_set_ok P'"
    and "MurmurHash3_x86_32 P' = MurmurHash3_x86_32 P"
  shows "rel_sum (=) (\<lambda>xs ys. set xs = set ys)
           (extract_features P' d text) (extract_features P d text)"
  unfolding extract_features_tokens
  using assms by (rule extract_tokens_order) simp

lemma signatures_loop_order:
  assumes "unordered_set_ok P" and "unordered_set_ok P'"
    and "MurmurHash3_x86_32 P' = MurmurHash3_x86_32 P"
  shows "signatures_loop P' d docs acc = signatures_loop P d docs acc"
proof (induction docs arbitrary: acc)
  case Nil
  then show ?case by simp
next
  case (Cons doc docs)
  note rel = extract_features_order [OF assms, of d doc]
  show ?case
  proof (cases "extract_features P d doc")
    case (Inl e)
    with rel show ?thesis
      by (cases "extract_features P' d doc") simp_all
  next
    case (Inr fs)
    with rel obtain fs' where fs': "extract_features P' d doc = Inr fs'" "set fs' = set fs"
      by (cases "extract_features P' d doc") simp_all
    then have "compute_signature (dd_hasher d) fs' = compute_signature (dd_hasher d) fs"
      by (intro compute_signature_set)
    with Inr fs' Cons.IH show ?thesis by simp
  qed
qed

lemma pairs_inner_platform:
  "round_double P' = round_double P \<Longrightarrow>
   pairs_inner P' d n signatures i j out = pairs_inner P d n signatures i j out"
proof (induction P d n signatures i j out rule: pairs_inner.induct)
  case (1 P d n signatures i j out)
  show ?case
  proof (cases "j < n")
    case False
    then show ?thesis
      by (simp add: pairs_inner.simps [of _ d n signatures i j])
  next
    case True
    show ?thesis
    proof (cases "jaccard_distance (round_double P) (signatures ! i) (signatures ! j)")
      case (Inl e)
      with True "1.prems" show ?thesis
        by (simp add: pairs_inner.simps [of _ d n signatures i j])
    next
      case (Inr dst)
      from "1.IH" [OF True Inr "1.prems"] True Inr "1.prems" show ?thesis
        by (auto simp: pairs_inner.simps [of _ d n signatures i j])
    qed
  qed
qed

lemma pairs_outer_platform:
  "round_double P' = round_double P \<Longrightarrow>
   pairs_outer P' d n signatures i out = pairs_outer P d n signatures i out"
proof (induction P d n signatures i out rule: pairs_outer.induct)
  case (1 P d n signatures i out)
  show ?case
  proof (cases "i < n")
    case False
    then show ?thesis
      by (simp add: pairs_outer.simps [of _ d n signatures i])
  next
    case True
    note inner = pairs_inner_platform [OF "1.prems", of d n signatures i "i + 1" out]
    show ?thesis
    proof (cases "pairs_inner P d n signatures i (i + 1) out")
      case (Inl e)
      with True inner show ?thesis
        by (simp add: pairs_outer.simps [of _ d n signatures i])
    next
      case (Inr out')
      from "1.IH" [OF True Inr "1.prems"] True Inr inner show ?thesis
        by (simp add: pairs_outer.simps [of _ d n signatures i])
    qed
  qed
qed

lemma MinHasher_loop_platform:
  "uniform_int_distribution P' = uniform_int_distribution P \<Longrightarrow>
   MinHasher_loop P' n i rng a b = MinHasher_loop P n i rng a b"
proof (induction P n i rng a b rule: MinHasher_loop.induct)
  case (1 P n i rng a b)
  show ?case
  proof (cases "i < n")
    case False
    then show ?thesis
      by (simp add: MinHasher_loop.simps [of _ n i])
  next
    case True
    obtain x rng1 where d1: "uniform_int_distribution P 1 (kHashPrime - 1) rng = (x, rng1)"
      by (cases "uniform_int_distribution P 1 (kHashPrime - 1) rng")
    obtain y rng2 where d2: "uniform_int_distribution P 0 (kHashPrime - 1) rng1 = (y, rng2)"
      by (cases "uniform_int_distribution P 0 (kHashPrime - 1) rng1")
    from "1.IH" [OF True d1 [symmetric] d2 [symmetric] "1.prems"] True d1 d2 "1.prems"
    show ?thesis
      by (simp add: MinHasher_loop.simps [of _ n i])
  qed
qed

lemma process_order:
  assumes "unordered_set_ok P" and "unordered_set_ok P'"
    and "MurmurHash3_x86_32 P' = MurmurHash3_x86_32 P"
    and "round_double P' = round_double P"
  shows "process P' d docs = process P d docs"
  by (simp add: process_def signatures_loop_order [OF assms(1-3)] pairs_outer_platform [OF assms(4)]
      split: sum.splits)

lemma append_insert_ok:
  "unordered_set_ok (P\<lparr>unordered_insert := (\<lambda>x xs. if x \<in> set xs then xs else xs @ [x])\<rparr>)"
  by (auto simp: unordered_set_ok_def)

section \<open>The model run on concrete inputs\<close>

lemma sample_hasher:
  "MinHasher_new sample_platform 2 1 =
     \<lparr>mh_num_hashes = 2, mh_a = [1, 1586005467], mh_b = [1015568748, 0]\<rparr>"
  by code_simp

lemma sample_features_a:
  "extract_features sample_platform (Deduplicator_new sample_platform 2 num_hashes threshold 8) ''a b''
     = Inr [3]"
  by (simp add: extract_features_tokens tokens_yielded.simps TokenGen_call.simps TokenGen_bool_def
      isalnum_def sample_platform_def)

lemma sample_features_b:
  "extract_features sample_platform (Deduplicator_new sample_platform 2 num_hashes threshold 8) ''c d''
     = Inr [7]"
  by (simp add: extract_features_tokens tokens_yielded.simps TokenGen_call.simps TokenGen_bool_def
      isalnum_def sample_platform_def)

lemma sample_signature_a:
  "compute_signature (MinHasher_new sample_platform 2 1) [3] = [1015568752, 229797639]"
  by code_simp

lemma sample_signature_b:
  "compute_signature (MinHasher_new sample_platform 2 1) [7] = [1015568756, 459595278]"
  by code_simp

lemma sample_signatures:
  "signatures_loop sample_platform (Deduplicator_new sample_platform 2 2 threshold 8)
     [''a b'', ''c d'', ''a b''] []
   = Inr [[1015568752, 229797639], [1015568756, 459595278], [1015568752, 229797639]]"
  by (simp add: sample_features_a sample_features_b sample_signature_a sample_signature_b)

lemma sample_features_single:
  "extract_features sample_platform (Deduplicator_new sample_platform 2 num_hashes threshold 8) ''a''
     = Inr []"
  by (simp add: extract_features_tokens tokens_yielded.simps TokenGen_call.simps TokenGen_bool_def
      isalnum_def sample_platform_def)

lemma compute_signature_no_hashes: "compute_signature (MinHasher_new P 0 seed) fs = []"
  using compute_signature_length [of "MinHasher_new P 0 seed" fs]
  by (simp add: MinHasher_new_fields)

lemma tokens_yielded_no_empty:
  assumes "\<not> ends_in_bare_delimiter (\<lambda>c. \<not> isalnum c) text"
  shows "tokens_yielded \<lparr>tg_sv = text,
      tg_del = dd_nonalnum (Deduplicator_new P ngrams num_hashes threshold num_features)\<rparr>
    = tokens text"
proof -
  let ?ts = "tokens_yielded \<lparr>tg_sv = text,
      tg_del = dd_nonalnum (Deduplicator_new P ngrams num_hashes threshold num_features)\<rparr>"
  from assms have "[] \<notin> set ?ts"
    by (simp add: yields_empty_token)
  then have "filter (\<lambda>t. t \<noteq> []) ?ts = ?ts"
    by (intro filter_True) auto
  then show ?thesis
    by (simp add: tokens_yielded_tokens)
qed

lemma compute_signature_Nil: "compute_signature h [] = replicate (mh_num_hashes h) kHashPrime"
  by (simp add: compute_signature_def)

section \<open>The claims\<close>

text \<open>
  C1, as amended. For every list \<open>S\<close> of feature indices below \<open>2^32\<close> (the set in any
  iteration order), \<open>compute_signature\<close> returns \<open>num_hashes\<close> slots, and slot \<open>i\<close> is the
  minimum over the \<open>f\<close> in \<open>S\<close> of \<open>((1 + f) * a_i + b_i) mod P\<close> with \<open>P = 2038074743\<close>,
  and is \<open>P\<close> when \<open>S\<close> is empty. Every index \<open>extract_features\<close> produces is below
  \<open>2^32\<close>, being a 32-bit hash reduced modulo \<open>num_features\<close> (\<open>extract_features_bound\<close>).
\<close>

theorem compute_signature_min:
  assumes "i < num_hashes" and "\<forall>f \<in> set S. unat f < 2 ^ 32"
  shows "length (compute_signature (MinHasher_new P num_hashes seed) S) = num_hashes \<and>
     unat (compute_signature (MinHasher_new P num_hashes seed) S ! i) =
       (if set S = {} then 2038074743
        else Min ((\<lambda>f. ((1 + unat f) * unat (mh_a (MinHasher_new P num_hashes seed) ! i)
                          + unat (mh_b (MinHasher_new P num_hashes seed) ! i)) mod 2038074743) ` set S))"
  using assms compute_signature_unat [of i "MinHasher_new P num_hashes seed" S]
  by (simp add: compute_signature_length MinHasher_new_fields)

text \<open>C1, witness: two hash functions, the feature indices 3 and 5.\<close>

theorem compute_signature_min_witness:
  "(0::nat) < 2 \<and> unat (3 :: size_t) < 2 ^ 32 \<and> unat (5 :: size_t) < 2 ^ 32 \<and>
   MinHasher_new sample_platform 2 1 =
     \<lparr>mh_num_hashes = 2, mh_a = [1, 1586005467], mh_b = [1015568748, 0]\<rparr> \<and>
   length (compute_signature (MinHasher_new sample_platform 2 1) [3, 5]) = 2 \<and>
   unat (compute_signature (MinHasher_new sample_platform 2 1) [3, 5] ! 0) =
     Min {((1 + 3) * 1 + 1015568748) mod 2038074743, ((1 + 5) * 1 + 1015568748) mod 2038074743}"
proof -
  have h: "MinHasher_new sample_platform 2 1 =
     \<lparr>mh_num_hashes = 2, mh_a = [1, 1586005467], mh_b = [1015568748, 0]\<rparr>"
    by code_simp
  have small: "\<forall>f \<in> set [3, 5 :: size_t]. unat f < 2 ^ 32"
    by simp
  from compute_signature_min [OF _ small, of 0 2 sample_platform 1] small
  show ?thesis by (simp add: h)
qed

text \<open>
  C1 as stated fails for a feature index of \<open>2^32\<close> or more, where the 64-bit sum wraps:
  for \<open>f = 2^64 - 1\<close> the code computes \<open>1ULL + f = 0\<close> and stores \<open>b_0 mod P = 1015568748\<close>,
  while \<open>((1 + f) * a_0 + b_0) mod P\<close> is \<open>1154184653\<close>.
\<close>

theorem compute_signature_min_counterexample:
  "MinHasher_new sample_platform 1 1 = \<lparr>mh_num_hashes = 1, mh_a = [1], mh_b = [1015568748]\<rparr> \<and>
   unat (compute_signature (MinHasher_new sample_platform 1 1) [18446744073709551615] ! 0)
     = 1015568748 \<and>
   ((1 + unat (18446744073709551615 :: size_t)) * unat (1 :: uint32_t)
      + unat (1015568748 :: uint32_t)) mod 2038074743 = 1154184653 \<and>
   unat (compute_signature (MinHasher_new sample_platform 1 1) [18446744073709551615] ! 0) \<noteq>
     Min ((\<lambda>f. ((1 + unat f) * unat (mh_a (MinHasher_new sample_platform 1 1) ! 0)
                  + unat (mh_b (MinHasher_new sample_platform 1 1) ! 0)) mod 2038074743)
          ` set [18446744073709551615 :: size_t])"
proof -
  have h: "MinHasher_new sample_platform 1 1 = \<lparr>mh_num_hashes = 1, mh_a = [1], mh_b = [1015568748]\<rparr>"
    by code_simp
  have s: "compute_signature (MinHasher_new sample_platform 1 1) [18446744073709551615] = [1015568748]"
    by code_simp
  have c: "((1 + unat (18446744073709551615 :: size_t)) * unat (1 :: uint32_t)
      + unat (1015568748 :: uint32_t)) mod 2038074743 = 1154184653"
    by simp
  have v: "unat (compute_signature (MinHasher_new sample_platform 1 1) [18446744073709551615] ! 0)
     = 1015568748"
    by (subst s) simp
  have m: "Min ((\<lambda>f. ((1 + unat f) * unat (mh_a (MinHasher_new sample_platform 1 1) ! 0)
                  + unat (mh_b (MinHasher_new sample_platform 1 1) ! 0)) mod 2038074743)
          ` set [18446744073709551615 :: size_t]) = 1154184653"
    by (subst (1 2) h) simp
  show ?thesis
    by (intro conjI h c v) (unfold v m, simp)
qed

text \<open>
  C2. For every corpus the signatures are computed as soon as \<open>num_features\<close> is not 0; and
  once they are, \<open>process\<close> reports, in the order of the two loops, exactly the pairs
  \<open>(i, j)\<close> with \<open>i < j\<close> whose distance is strictly below the threshold, each with the
  similarity \<open>1 - distance\<close>; the distance of every pair is computed without a read out of
  range; and a pair whose distance equals the threshold is not reported.
\<close>

theorem process_reports_close_pairs:
  "(dd_num_features d \<noteq> 0 \<longrightarrow> (\<exists>sigs. signatures_loop P d docs [] = Inr sigs)) \<and>
   (\<forall>sigs. signatures_loop P d docs [] = Inr sigs \<longrightarrow>
      process P d docs =
        Inr [\<lparr>jaccard = dsub (round_double P) (Fin 1)
                           (jaccard_value (round_double P) (sigs ! i) (sigs ! j)),
               first_doc = i, second_doc = j\<rparr>.
             i \<leftarrow> [0..<length docs], j \<leftarrow> [Suc i..<length docs],
             dlt (jaccard_value (round_double P) (sigs ! i) (sigs ! j)) (dd_threshold d)] \<and>
      (\<forall>i j. i < j \<and> j < length docs \<longrightarrow>
         jaccard_distance (round_double P) (sigs ! i) (sigs ! j) =
           Inr (jaccard_value (round_double P) (sigs ! i) (sigs ! j))) \<and>
      (\<forall>i j out. process P d docs = Inr out \<and>
         jaccard_value (round_double P) (sigs ! i) (sigs ! j) = dd_threshold d \<longrightarrow>
         \<not> (\<exists>r \<in> set out. first_doc r = i \<and> second_doc r = j)))"
proof (intro conjI allI impI)
  assume "dd_num_features d \<noteq> 0"
  then show "\<exists>sigs. signatures_loop P d docs [] = Inr sigs"
    by (rule signatures_loop_total)
next
  fix sigs
  assume sl: "signatures_loop P d docs [] = Inr sigs"
  show "process P d docs =
        Inr [\<lparr>jaccard = dsub (round_double P) (Fin 1)
                           (jaccard_value (round_double P) (sigs ! i) (sigs ! j)),
               first_doc = i, second_doc = j\<rparr>.
             i \<leftarrow> [0..<length docs], j \<leftarrow> [Suc i..<length docs],
             dlt (jaccard_value (round_double P) (sigs ! i) (sigs ! j)) (dd_threshold d)]"
    by (rule process_eq [OF sl, unfolded report_def close_pair_def])
next
  fix sigs i j
  assume sl: "signatures_loop P d docs [] = Inr sigs" and "i < j \<and> j < length docs"
  then have "length (sigs ! i) = length (sigs ! j)"
    using signatures_loop_lengths [OF sl, of i] signatures_loop_lengths [OF sl, of j]
    by simp
  then show "jaccard_distance (round_double P) (sigs ! i) (sigs ! j) =
              Inr (jaccard_value (round_double P) (sigs ! i) (sigs ! j))"
    by (rule jaccard_distance_same_length)
next
  fix sigs i j out
  assume sl: "signatures_loop P d docs [] = Inr sigs"
    and a: "process P d docs = Inr out \<and>
            jaccard_value (round_double P) (sigs ! i) (sigs ! j) = dd_threshold d"
  show "\<not> (\<exists>r \<in> set out. first_doc r = i \<and> second_doc r = j)"
  proof
    assume "\<exists>r \<in> set out. first_doc r = i \<and> second_doc r = j"
    then obtain r where "r \<in> set out" "first_doc r = i" "second_doc r = j"
      by auto
    with process_reports_only [OF sl, of out r] a
    have "dlt (dd_threshold d) (dd_threshold d)"
      by (simp add: close_pair_def)
    then show False by (simp add: dlt_irrefl)
  qed
qed

text \<open>C2, witness: three documents, the first and the last identical, and the threshold 1.
  The second document is at distance exactly 1 from the others and is not reported with
  them; the pair of identical documents, at distance 0, is.\<close>

theorem process_reports_close_pairs_witness:
  "dd_num_features (Deduplicator_new sample_platform 2 2 (Fin 1) 8) \<noteq> 0 \<and>
   signatures_loop sample_platform (Deduplicator_new sample_platform 2 2 (Fin 1) 8)
     [''a b'', ''c d'', ''a b''] []
   = Inr [[1015568752, 229797639], [1015568756, 459595278], [1015568752, 229797639]] \<and>
   jaccard_value (round_double sample_platform)
     [1015568752, 229797639] [1015568756, 459595278] = Fin 1 \<and>
   jaccard_value (round_double sample_platform)
     [1015568752, 229797639] [1015568752, 229797639] = Fin 0 \<and>
   process sample_platform (Deduplicator_new sample_platform 2 2 (Fin 1) 8)
     [''a b'', ''c d'', ''a b'']
   = Inr [\<lparr>jaccard = Fin 1, first_doc = 0, second_doc = 2\<rparr>]"
proof -
  note s = sample_signatures [of "Fin 1"]
  from process_reports_close_pairs [THEN conjunct2, rule_format, OF s] s show ?thesis
    by (simp add: jaccard_value_def count_matches_def double_of_size_def sample_platform_def
        upt_rec [of 0] upt_rec [of 1] upt_rec [of 2] upt_rec [of 3])
qed

text \<open>
  C3, as amended. With \<open>num_hashes > 0\<close>: two identical documents of the corpus have the same
  FeatureSet and the same signature, their distance is exactly 0, and the pair is reported,
  with similarity 1, for every threshold above 0.
\<close>

theorem identical_documents_reported:
  assumes "signatures_loop P (Deduplicator_new P ngrams num_hashes threshold num_features) docs []
             = Inr sigs"
    and "i < j" and "j < length docs" and "docs ! i = docs ! j"
    and "0 < num_hashes" and "rounding (round_double P)" and "dlt (Fin 0) threshold"
  shows "extract_features P (Deduplicator_new P ngrams num_hashes threshold num_features) (docs ! i)
           = extract_features P (Deduplicator_new P ngrams num_hashes threshold num_features) (docs ! j) \<and>
         sigs ! i = sigs ! j \<and>
         jaccard_distance (round_double P) (sigs ! i) (sigs ! j) = Inr (Fin 0) \<and>
         (\<exists>out. process P (Deduplicator_new P ngrams num_hashes threshold num_features) docs = Inr out \<and>
                \<lparr>jaccard = Fin 1, first_doc = i, second_doc = j\<rparr> \<in> set out)"
proof -
  let ?d = "Deduplicator_new P ngrams num_hashes threshold num_features"
  from assms(2,3) have "i < length docs"
    by simp
  from signatures_loop_nth [OF assms(1) this]
  obtain fi where fi: "extract_features P ?d (docs ! i) = Inr fi"
    "sigs ! i = compute_signature (dd_hasher ?d) fi"
    by blast
  from signatures_loop_nth [OF assms(1,3)]
  obtain fj where fj: "extract_features P ?d (docs ! j) = Inr fj"
    "sigs ! j = compute_signature (dd_hasher ?d) fj"
    by blast
  from fi fj assms(4) have same: "sigs ! i = sigs ! j"
    by simp
  have "length (sigs ! i) = num_hashes"
    using fi(2) by (simp add: compute_signature_length MinHasher_new_fields)
  with assms(5) have "sigs ! i \<noteq> []"
    by auto
  with assms(6) have zero: "jaccard_distance (round_double P) (sigs ! i) (sigs ! i) = Inr (Fin 0)"
    by (rule jaccard_self)
  then have val: "jaccard_value (round_double P) (sigs ! i) (sigs ! j) = Fin 0"
    using same by (simp add: jaccard_distance_def)
  from assms(6) have one: "dsub (round_double P) (Fin 1) (Fin 0) = Fin 1"
    by (simp add: rounding_def)
  have "\<lparr>jaccard = Fin 1, first_doc = i, second_doc = j\<rparr> \<in>
        set [report P sigs i' j'. i' \<leftarrow> [0..<length docs], j' \<leftarrow> [Suc i'..<length docs],
               close_pair P ?d sigs i' j']"
    using assms(2,3,7) val one
    by (auto simp: report_def close_pair_def intro!: bexI [of _ i] bexI [of _ j])
  with process_eq [OF assms(1)] same zero assms(4) show ?thesis
    by simp
qed

text \<open>C3, witness: the first and the third document of the corpus above.\<close>

theorem identical_documents_reported_witness:
  "signatures_loop sample_platform (Deduplicator_new sample_platform 2 2 (Fin (3 / 10)) 8)
     [''a b'', ''c d'', ''a b''] []
   = Inr [[1015568752, 229797639], [1015568756, 459595278], [1015568752, 229797639]] \<and>
   (0::nat) < 2 \<and> [''a b'', ''c d'', ''a b''] ! 0 = [''a b'', ''c d'', ''a b''] ! 2 \<and>
   rounding (round_double sample_platform) \<and> dlt (Fin 0) (Fin (3 / 10)) \<and>
   jaccard_distance (round_double sample_platform)
     [1015568752, 229797639] [1015568752, 229797639] = Inr (Fin 0) \<and>
   (\<exists>out. process sample_platform (Deduplicator_new sample_platform 2 2 (Fin (3 / 10)) 8)
            [''a b'', ''c d'', ''a b''] = Inr out \<and>
          \<lparr>jaccard = Fin 1, first_doc = 0, second_doc = 2\<rparr> \<in> set out)"
proof -
  note s = sample_signatures [of "Fin (3 / 10)"]
  have t: "dlt (Fin 0) (Fin (3 / 10))"
    by simp
  have e: "[''a b'', ''c d'', ''a b''] ! 0 = [''a b'', ''c d'', ''a b''] ! 2"
    by simp
  from identical_documents_reported [OF s _ _ e _ rounding_sample t] s rounding_sample t
  show ?thesis by simp
qed

text \<open>
  C3 as stated fails with \<open>num_hashes = 0\<close>, which the constructor accepts: both signatures
  are empty, the distance is NaN, the comparison with the threshold 0.3 is false and the
  pair of identical documents is not reported.
\<close>

theorem identical_documents_counterexample:
  "dlt (Fin 0) (Fin (3 / 10)) \<and>
   signatures_loop sample_platform (Deduplicator_new sample_platform 2 0 (Fin (3 / 10)) 8)
     [''a b'', ''a b''] [] = Inr [[], []] \<and>
   jaccard_distance (round_double sample_platform) [] [] = Inr NaN \<and>
   process sample_platform (Deduplicator_new sample_platform 2 0 (Fin (3 / 10)) 8)
     [''a b'', ''a b''] = Inr []"
proof -
  have s: "signatures_loop sample_platform (Deduplicator_new sample_platform 2 0 (Fin (3 / 10)) 8)
     [''a b'', ''a b''] [] = Inr [[], []]"
    by (simp add: sample_features_a compute_signature_no_hashes)
  have n: "jaccard_distance (round_double sample_platform) [] [] = Inr NaN"
    by (simp add: jaccard_empty rounding_sample)
  then have v: "jaccard_value (round_double sample_platform) [] [] = NaN"
    by (simp add: jaccard_distance_def)
  have "process sample_platform (Deduplicator_new sample_platform 2 0 (Fin (3 / 10)) 8)
     [''a b'', ''a b''] = Inr []"
    unfolding process_eq [OF s]
    by (simp add: close_pair_def v upt_rec [of 0] upt_rec [of 1] upt_rec [of 2])
  with s n show ?thesis by simp
qed

text \<open>
  C4. The hash family, every signature and the reports are functions of the platform, the
  seed, the configuration and the corpus. The one choice the libraries leave open between
  two runs, the order in which an \<^verbatim>\<open>unordered_set\<close> is iterated, changes none of them: with
  any other insertion \<open>ins\<close> that keeps the set, the coefficients, the signatures and the
  reports are the same (and where \<open>num_features = 0\<close> stops one run at the modulus, it stops
  the other).
\<close>

theorem pipeline_deterministic:
  assumes "unordered_set_ok P" and "unordered_set_ok (P\<lparr>unordered_insert := ins\<rparr>)"
  shows "MinHasher_new (P\<lparr>unordered_insert := ins\<rparr>) num_hashes seed = MinHasher_new P num_hashes seed \<and>
         Deduplicator_new (P\<lparr>unordered_insert := ins\<rparr>) ngrams num_hashes threshold num_features
           = Deduplicator_new P ngrams num_hashes threshold num_features \<and>
         signatures_loop (P\<lparr>unordered_insert := ins\<rparr>) d docs [] = signatures_loop P d docs [] \<and>
         process (P\<lparr>unordered_insert := ins\<rparr>) d docs = process P d docs"
proof -
  have h: "MinHasher_new (P\<lparr>unordered_insert := ins\<rparr>) n s = MinHasher_new P n s" for n s
    by (simp add: MinHasher_new_def MinHasher_loop_platform [of "P\<lparr>unordered_insert := ins\<rparr>" P])
  then have "Deduplicator_new (P\<lparr>unordered_insert := ins\<rparr>) ngrams num_hashes threshold num_features
           = Deduplicator_new P ngrams num_hashes threshold num_features"
    by (simp add: Deduplicator_new_def)
  moreover have "signatures_loop (P\<lparr>unordered_insert := ins\<rparr>) d docs [] = signatures_loop P d docs []"
    using assms by (rule signatures_loop_order) simp
  moreover have "process (P\<lparr>unordered_insert := ins\<rparr>) d docs = process P d docs"
    using assms by (rule process_order) simp_all
  ultimately show ?thesis
    using h by simp
qed

text \<open>C4, witness: a set that inserts at the end instead of at the front.\<close>

theorem pipeline_deterministic_witness:
  "unordered_set_ok sample_platform \<and>
   unordered_set_ok
     (sample_platform\<lparr>unordered_insert := (\<lambda>x xs. if x \<in> set xs then xs else xs @ [x])\<rparr>) \<and>
   process (sample_platform\<lparr>unordered_insert := (\<lambda>x xs. if x \<in> set xs then xs else xs @ [x])\<rparr>)
     (Deduplicator_new sample_platform 2 2 (Fin (3 / 10)) 8) [''a b'', ''c d'', ''a b'']
   = process sample_platform
     (Deduplicator_new sample_platform 2 2 (Fin (3 / 10)) 8) [''a b'', ''c d'', ''a b'']"
  using pipeline_deterministic [OF unordered_set_ok_sample append_insert_ok [of sample_platform]]
    unordered_set_ok_sample append_insert_ok [of sample_platform]
  by simp

text \<open>
  C5, as amended. The constructor checks nothing and never fails: for every \<open>ngrams\<close>,
  \<open>num_hashes\<close>, \<open>threshold\<close> and \<open>num_features\<close> it returns a deduplicator that holds them
  unchanged. It takes no modulus; \<open>extract_features\<close> does, and runs into the modulus by zero
  exactly when \<open>num_features = 0\<close> and the document yields a token and at least \<open>ngrams\<close> of
  them (a window is complete).
\<close>

theorem construction_validates_nothing:
  "dd_ngrams (Deduplicator_new P ngrams num_hashes threshold num_features) = ngrams \<and>
   dd_num_features (Deduplicator_new P ngrams num_hashes threshold num_features) = num_features \<and>
   dd_threshold (Deduplicator_new P ngrams num_hashes threshold num_features) = threshold \<and>
   mh_num_hashes (dd_hasher (Deduplicator_new P ngrams num_hashes threshold num_features))
     = num_hashes \<and>
   (extract_features P (Deduplicator_new P ngrams num_hashes threshold num_features) text
      = Inl DivisionByZero) =
   (num_features = 0 \<and>
    tokens_yielded \<lparr>tg_sv = text,
       tg_del = dd_nonalnum (Deduplicator_new P ngrams num_hashes threshold num_features)\<rparr> \<noteq> [] \<and>
    ngrams \<le> length (tokens_yielded \<lparr>tg_sv = text,
       tg_del = dd_nonalnum (Deduplicator_new P ngrams num_hashes threshold num_features)\<rparr>))"
proof (cases "num_features = 0")
  case True
  then show ?thesis
    by (simp add: extract_features_tokens extract_tokens_zero MinHasher_new_fields)
next
  case False
  let ?d = "Deduplicator_new P ngrams num_hashes threshold num_features"
  from extract_tokens_defined [OF False]
  obtain fs where "extract_tokens P ngrams num_features
      (tokens_yielded \<lparr>tg_sv = text, tg_del = dd_nonalnum ?d\<rparr>) [] [] = Inr fs"
    by blast
  with False show ?thesis
    by (simp add: extract_features_tokens MinHasher_new_fields)
qed

text \<open>
  C5 as stated fails: \<^verbatim>\<open>Deduplicator(0, 0, 2.0, 0)\<close> is constructed, with all four values
  kept; and with \<open>num_features = 0\<close> \<open>process\<close> reaches \<^verbatim>\<open>h % num_features_\<close> with a zero
  modulus on the first complete window.
\<close>

theorem construction_counterexample:
  "dd_ngrams (Deduplicator_new sample_platform 0 0 (Fin 2) 0) = 0 \<and>
   mh_num_hashes (dd_hasher (Deduplicator_new sample_platform 0 0 (Fin 2) 0)) = 0 \<and>
   dd_threshold (Deduplicator_new sample_platform 0 0 (Fin 2) 0) = Fin 2 \<and>
   dd_num_features (Deduplicator_new sample_platform 0 0 (Fin 2) 0) = 0 \<and>
   process sample_platform (Deduplicator_new sample_platform 2 2 (Fin (3 / 10)) 0) [''a b'']
     = Inl DivisionByZero"
  by (simp add: process_def extract_features_tokens tokens_yielded.simps TokenGen_call.simps
      TokenGen_bool_def isalnum_def MinHasher_new_fields)

text \<open>
  C6 fails on the code. On the text \<^verbatim>\<open>a||\<close> the tokenizer returns \<^verbatim>\<open>a\<close>, then reports
  itself non-exhausted (one delimiter is left), and the next call returns the empty token;
  the text has the single token \<^verbatim>\<open>a\<close>. With \<open>ngrams = 2\<close> the window \<^verbatim>\<open>a\<close>, empty is hashed
  and the FeatureSet is not empty.
\<close>

theorem tokenizer_yields_empty_token:
  "TokenGen_call \<lparr>tg_sv = ''a||'',
       tg_del = dd_nonalnum (Deduplicator_new sample_platform 2 2 (Fin (3 / 10)) 8)\<rparr>
     = (''a'', \<lparr>tg_sv = ''|'',
          tg_del = dd_nonalnum (Deduplicator_new sample_platform 2 2 (Fin (3 / 10)) 8)\<rparr>) \<and>
   TokenGen_bool \<lparr>tg_sv = ''|'',
       tg_del = dd_nonalnum (Deduplicator_new sample_platform 2 2 (Fin (3 / 10)) 8)\<rparr> \<and>
   TokenGen_call \<lparr>tg_sv = ''|'',
       tg_del = dd_nonalnum (Deduplicator_new sample_platform 2 2 (Fin (3 / 10)) 8)\<rparr>
     = ([], \<lparr>tg_sv = [],
          tg_del = dd_nonalnum (Deduplicator_new sample_platform 2 2 (Fin (3 / 10)) 8)\<rparr>) \<and>
   tokens ''a||'' = [''a''] \<and>
   extract_features sample_platform (Deduplicator_new sample_platform 2 2 (Fin (3 / 10)) 8) ''a||''
     = Inr [1]"
  by (simp add: TokenGen_call.simps TokenGen_bool_def isalnum_def tokens_def
      extract_features_tokens tokens_yielded.simps sample_platform_def)

text \<open>
  C7, as amended. A document with fewer than \<open>ngrams\<close> tokens on which the tokenizer yields
  no empty token has an empty FeatureSet and a signature of \<open>num_hashes\<close> slots all equal to
  \<open>P\<close>; for two such documents, when \<open>num_hashes > 0\<close>, the distance of their signatures
  is 0. The tokenizer yields the tokens of the text, and after them one empty token exactly
  when the text ends in a delimiter not preceded by an alphanumeric byte
  (\<open>tokens_yielded_eq\<close>).
\<close>

theorem short_documents_empty_features:
  assumes "\<not> ends_in_bare_delimiter (\<lambda>c. \<not> isalnum c) text1"
    and "\<not> ends_in_bare_delimiter (\<lambda>c. \<not> isalnum c) text2"
    and "length (tokens text1) < ngrams" and "length (tokens text2) < ngrams"
    and "0 < num_hashes" and "rounding (round_double P)"
  shows "extract_features P (Deduplicator_new P ngrams num_hashes threshold num_features) text1 = Inr [] \<and>
         extract_features P (Deduplicator_new P ngrams num_hashes threshold num_features) text2 = Inr [] \<and>
         compute_signature (dd_hasher (Deduplicator_new P ngrams num_hashes threshold num_features)) []
           = replicate num_hashes kHashPrime \<and>
         jaccard_distance (round_double P)
           (compute_signature (dd_hasher (Deduplicator_new P ngrams num_hashes threshold num_features)) [])
           (compute_signature (dd_hasher (Deduplicator_new P ngrams num_hashes threshold num_features)) [])
           = Inr (Fin 0)"
proof -
  let ?d = "Deduplicator_new P ngrams num_hashes threshold num_features"
  have e1: "extract_features P ?d text1 = Inr []"
    using assms(3) by (simp add: extract_features_tokens tokens_yielded_no_empty [OF assms(1)]
        extract_tokens_short)
  have e2: "extract_features P ?d text2 = Inr []"
    using assms(4) by (simp add: extract_features_tokens tokens_yielded_no_empty [OF assms(2)]
        extract_tokens_short)
  have s: "compute_signature (dd_hasher ?d) [] = replicate num_hashes kHashPrime"
    by (simp add: compute_signature_Nil MinHasher_new_fields)
  from assms(5) have "replicate num_hashes kHashPrime \<noteq> []"
    by simp
  with assms(6) have "jaccard_distance (round_double P) (replicate num_hashes kHashPrime)
      (replicate num_hashes kHashPrime) = Inr (Fin 0)"
    by (rule jaccard_self)
  with e1 e2 s show ?thesis
    by simp
qed

text \<open>C7, witness: two one-token documents and \<open>ngrams = 2\<close>.\<close>

theorem short_documents_empty_features_witness:
  "\<not> ends_in_bare_delimiter (\<lambda>c. \<not> isalnum c) ''a'' \<and>
   \<not> ends_in_bare_delimiter (\<lambda>c. \<not> isalnum c) ''b '' \<and>
   tokens ''a'' = [''a''] \<and> tokens ''b '' = [''b''] \<and> (0::nat) < 2 \<and>
   rounding (round_double sample_platform) \<and>
   extract_features sample_platform (Deduplicator_new sample_platform 2 2 (Fin (3 / 10)) 8) ''a''
     = Inr [] \<and>
   extract_features sample_platform (Deduplicator_new sample_platform 2 2 (Fin (3 / 10)) 8) ''b ''
     = Inr [] \<and>
   compute_signature (dd_hasher (Deduplicator_new sample_platform 2 2 (Fin (3 / 10)) 8)) []
     = [kHashPrime, kHashPrime] \<and>
   jaccard_distance (round_double sample_platform) [kHashPrime, kHashPrime] [kHashPrime, kHashPrime]
     = Inr (Fin 0)"
proof -
  have ba: "\<not> ends_in_bare_delimiter (\<lambda>c. \<not> isalnum c) ''a''"
    and bb: "\<not> ends_in_bare_delimiter (\<lambda>c. \<not> isalnum c) ''b ''"
    by (simp_all add: ends_in_bare_delimiter_def isalnum_def)
  have ta: "tokens ''a'' = [''a'']" and tb: "tokens ''b '' = [''b'']"
    by (simp_all add: tokens_def isalnum_def)
  have r2: "replicate 2 kHashPrime = [kHashPrime, kHashPrime]"
    by (simp add: numeral_2_eq_2)
  from short_documents_empty_features [of "''a''" "''b ''" 2 2 sample_platform "Fin (3 / 10)" 8,
      OF ba bb _ _ _ rounding_sample] ba bb ta tb rounding_sample
  show ?thesis
    by (auto simp: r2)
qed

text \<open>
  C7 as stated fails with \<open>num_hashes = 0\<close>, which the constructor accepts: the one-token
  document has an empty FeatureSet and an empty signature, and the distance of two such
  signatures is NaN, not 0.
\<close>

theorem short_documents_counterexample:
  "tokens ''a'' = [''a''] \<and>
   extract_features sample_platform (Deduplicator_new sample_platform 2 0 (Fin (3 / 10)) 8) ''a''
     = Inr [] \<and>
   compute_signature (dd_hasher (Deduplicator_new sample_platform 2 0 (Fin (3 / 10)) 8)) [] = [] \<and>
   jaccard_distance (round_double sample_platform)
     (compute_signature (dd_hasher (Deduplicator_new sample_platform 2 0 (Fin (3 / 10)) 8)) [])
     (compute_signature (dd_hasher (Deduplicator_new sample_platform 2 0 (Fin (3 / 10)) 8)) [])
     = Inr NaN"
proof -
  have ta: "tokens ''a'' = [''a'']"
    by (simp add: tokens_def isalnum_def)
  then show ?thesis
    by (simp add: sample_features_single compute_signature_no_hashes jaccard_empty rounding_sample)
qed

text \<open>
  C8, as amended. For every signature produced with \<open>num_hashes > 0\<close>, the distance from the
  signature to itself is exactly 0.
\<close>

theorem self_distance_zero:
  assumes "rounding rnd" and "0 < num_hashes"
  shows "jaccard_distance rnd
           (compute_signature (MinHasher_new P num_hashes seed) features)
           (compute_signature (MinHasher_new P num_hashes seed) features) = Inr (Fin 0)"
proof -
  have "length (compute_signature (MinHasher_new P num_hashes seed) features) = num_hashes"
    by (simp add: compute_signature_length MinHasher_new_fields)
  with assms(2) have "compute_signature (MinHasher_new P num_hashes seed) features \<noteq> []"
    by auto
  with assms(1) show ?thesis
    by (rule jaccard_self)
qed

text \<open>C8, witness: the signature of the feature indices 3 and 5 under two hash functions.\<close>

theorem self_distance_zero_witness:
  "rounding (round_double sample_platform) \<and> (0::nat) < 2 \<and>
   compute_signature (MinHasher_new sample_platform 2 1) [3, 5] = [1015568752, 229797639] \<and>
   jaccard_distance (round_double sample_platform) [1015568752, 229797639] [1015568752, 229797639]
     = Inr (Fin 0)"
proof -
  have s: "compute_signature (MinHasher_new sample_platform 2 1) [3, 5] = [1015568752, 229797639]"
    by code_simp
  from self_distance_zero [OF rounding_sample, of 2 sample_platform 1 "[3, 5]"] s rounding_sample
  show ?thesis by simp
qed

text \<open>
  C8 as stated fails with \<open>num_hashes = 0\<close>, which the constructor accepts: the signature
  is empty, the quotient is \<open>0.0 / 0\<close>, and the distance is NaN, not 0.
\<close>

theorem self_distance_counterexample:
  "compute_signature (MinHasher_new sample_platform 0 1) [3, 5] = [] \<and>
   jaccard_distance (round_double sample_platform)
     (compute_signature (MinHasher_new sample_platform 0 1) [3, 5])
     (compute_signature (MinHasher_new sample_platform 0 1) [3, 5]) = Inr NaN"
proof -
  have s: "compute_signature (MinHasher_new sample_platform 0 1) [3, 5] = []"
    using compute_signature_length [of "MinHasher_new sample_platform 0 1" "[3, 5]"]
    by (simp add: MinHasher_new_fields)
  then show ?thesis
    by (simp add: jaccard_empty rounding_sample)
qed

text \<open>
  C9. Whatever the seed, when the distribution keeps to its range every coefficient pair
  drawn by the constructor has \<open>a_i\<close> in \<open>[1, P - 1]\<close>, so \<open>a_i \<noteq> 0\<close>, and \<open>b_i\<close> in
  \<open>[0, P - 1]\<close>, with \<open>P = 2038074743\<close>; there are \<open>num_hashes\<close> pairs. The family is a
  value of the model: \<open>compute_signature\<close> and \<open>jaccard_distance\<close> (a const and a static
  method) read it and return no hasher, and \<open>process\<close> passes the same one to every call.
\<close>

theorem hash_family_coefficients:
  assumes "distribution_ok P" and "i < num_hashes"
  shows "1 \<le> unat (mh_a (MinHasher_new P num_hashes seed) ! i) \<and>
         unat (mh_a (MinHasher_new P num_hashes seed) ! i) \<le> 2038074743 - 1 \<and>
         unat (mh_b (MinHasher_new P num_hashes seed) ! i) \<le> 2038074743 - 1 \<and>
         mh_a (MinHasher_new P num_hashes seed) ! i \<noteq> 0 \<and>
         length (mh_a (MinHasher_new P num_hashes seed)) = num_hashes \<and>
         length (mh_b (MinHasher_new P num_hashes seed)) = num_hashes \<and>
         unat kHashPrime = 2038074743"
  using MinHasher_new_coeff_ok [OF assms, of seed]
  by (auto simp: coeff_ok_unat MinHasher_new_fields kHashPrime_def)

text \<open>C9, witness: the second pair of a family of two.\<close>

theorem hash_family_coefficients_witness:
  "distribution_ok sample_platform \<and> (1::nat) < 2 \<and>
   MinHasher_new sample_platform 2 1 =
     \<lparr>mh_num_hashes = 2, mh_a = [1, 1586005467], mh_b = [1015568748, 0]\<rparr> \<and>
   1 \<le> unat (1586005467 :: uint32_t) \<and> unat (1586005467 :: uint32_t) \<le> 2038074743 - 1"
proof -
  have h: "MinHasher_new sample_platform 2 1 =
     \<lparr>mh_num_hashes = 2, mh_a = [1, 1586005467], mh_b = [1015568748, 0]\<rparr>"
    by code_simp
  from hash_family_coefficients [OF distribution_ok_sample, of 1 2 1] h distribution_ok_sample
  show ?thesis by simp
qed

text \<open>
  C10. \<open>jaccard_distance\<close> divides by the length of its first argument unguarded: with
  \<open>b\<close> at least as long as \<open>a\<close>, the result is a number of \<open>[0, 1]\<close> when \<open>a\<close> is not
  empty, and NaN when it is; for two empty signatures the result is not 0.
\<close>

theorem jaccard_distance_defined_iff_nonempty:
  assumes "rounding rnd" and "length a \<le> length b"
  shows "(a \<noteq> [] \<longrightarrow> (\<exists>x. jaccard_distance rnd a b = Inr (Fin x) \<and> 0 \<le> x \<and> x \<le> 1)) \<and>
         (a = [] \<longrightarrow> jaccard_distance rnd a b = Inr NaN) \<and>
         jaccard_distance rnd [] [] \<noteq> Inr (Fin 0)"
  using assms by (simp add: jaccard_range jaccard_empty)

text \<open>C10, witness: two signatures of length 2 that agree in one slot, and two empty ones.\<close>

theorem jaccard_distance_defined_iff_nonempty_witness:
  "rounding (round_double sample_platform) \<and>
   jaccard_distance (round_double sample_platform) [1, 2] [1, 3] = Inr (Fin (1 / 2)) \<and>
   (\<exists>x. jaccard_distance (round_double sample_platform) [1, 2] [1, 3] = Inr (Fin x) \<and> 0 \<le> x \<and> x \<le> 1) \<and>
   jaccard_distance (round_double sample_platform) [] [] = Inr NaN"
proof -
  have r: "rounding (round_double sample_platform)"
    by (rule rounding_sample)
  have v: "jaccard_distance (round_double sample_platform) [1, 2] [1, 3] = Inr (Fin (1 / 2))"
    by (simp add: jaccard_distance_def jaccard_value_def count_matches_def double_of_size_def sample_platform_def)
  from jaccard_distance_defined_iff_nonempty [OF r, of "[1, 2]" "[1, 3]"]
    jaccard_distance_defined_iff_nonempty [OF r, of "[]" "[]"] r v
  show ?thesis by simp
qed

end
